theory Spec2Isabelle
  imports Main
begin

section \<open>Texts and characters\<close>

text \<open>
  The program works on Python \<open>str\<close> values, sequences of code points. A text is modelled
  as a \<^typ>\<open>string\<close> with one \<^typ>\<open>char\<close> per code point; the 8-bit \<^typ>\<open>char\<close> is read
  as the code point of the same number, so the alphabet of the model is U+0000 .. U+00FF
  (Latin-1). It holds every character of the program's keyword lists and patterns and the
  Portuguese alphabet the OCR step is configured for. Texts with code points above U+00FF
  are outside the model.
\<close>

definition cp :: "char \<Rightarrow> nat" where
  "cp c = of_char c"

text \<open>\<open>str.lower\<close> on one code point of the alphabet: A-Z and the capital letters
  U+00C0 .. U+00DE (without the multiplication sign U+00D7) move up by 32.\<close>

definition lower_char :: "char \<Rightarrow> char" where
  "lower_char c =
     (if (65 \<le> cp c \<and> cp c \<le> 90) \<or> (192 \<le> cp c \<and> cp c \<le> 214) \<or> (216 \<le> cp c \<and> cp c \<le> 222)
      then char_of (cp c + 32) else c)"

definition lower :: "string \<Rightarrow> string" where
  "lower s = map lower_char s"

text \<open>\<open>str.upper\<close>: a-z and U+00E0 .. U+00FE (without the division sign U+00F7) move down
  by 32, and the sharp s U+00DF becomes the two letters SS. Python maps U+00B5 and U+00FF to
  U+039C and U+0178, which the alphabet does not have; the model leaves these two
  unchanged. The program applies \<open>upper\<close> to match groups only, and those hold neither
  (\<open>cid_group_chars\<close>, \<open>registry_group_chars\<close>, \<open>group_chars_upper\<close>).\<close>

definition upper_char :: "char \<Rightarrow> string" where
  "upper_char c =
     (if cp c = 223 then ''SS''
      else if (97 \<le> cp c \<and> cp c \<le> 122) \<or> (224 \<le> cp c \<and> cp c \<le> 246) \<or> (248 \<le> cp c \<and> cp c \<le> 254)
      then [char_of (cp c - 32)] else [c])"

definition upper :: "string \<Rightarrow> string" where
  "upper s = concat (map upper_char s)"

text \<open>The character categories of the \<open>re\<close> module for \<open>str\<close> patterns (Unicode
  matching), on the alphabet: \<open>\d\<close>, \<open>\s\<close> and \<open>\w\<close>.\<close>

definition is_digit :: "char \<Rightarrow> bool" where
  "is_digit c = (48 \<le> cp c \<and> cp c \<le> 57)"

definition is_space :: "char \<Rightarrow> bool" where
  "is_space c = ((9 \<le> cp c \<and> cp c \<le> 13) \<or> (28 \<le> cp c \<and> cp c \<le> 32) \<or> cp c = 133 \<or> cp c = 160)"

definition is_word :: "char \<Rightarrow> bool" where
  "is_word c =
     ((48 \<le> cp c \<and> cp c \<le> 57) \<or> (65 \<le> cp c \<and> cp c \<le> 90) \<or> cp c = 95 \<or>
      (97 \<le> cp c \<and> cp c \<le> 122) \<or> cp c = 170 \<or> cp c = 178 \<or> cp c = 179 \<or> cp c = 181 \<or>
      cp c = 185 \<or> cp c = 186 \<or> (188 \<le> cp c \<and> cp c \<le> 190) \<or>
      (192 \<le> cp c \<and> cp c \<le> 214) \<or> (216 \<le> cp c \<and> cp c \<le> 246) \<or> 248 \<le> cp c)"

section \<open>The regular expressions of the \<open>re\<close> module\<close>

text \<open>
  The four patterns of the program are written as terms of \<open>regex\<close>, and \<open>re.search\<close> with
  the flag \<open>re.IGNORECASE\<close> (every search of the program sets it) is the backtracking
  matcher \<open>ms\<close> below. A class item is a literal, a range \<open>a-z\<close> or a category; a
  repetition \<open>Rep items lo hi\<close> is a greedy \<open>[items]{lo,hi}\<close> over one character class
  (\<open>*\<close> is \<open>Rep items 0 None\<close>, \<open>+\<close> is \<open>Rep items 1 None\<close>), which is the only place
  the patterns repeat more than once; \<open>Opt\<close> is the greedy \<open>?\<close>, \<open>Grp n\<close> the capture
  group number \<open>n\<close> and \<open>WordB\<close> the assertion \<open>\b\<close>.
\<close>

datatype cc = CLit char | CRange char char | CSpace | CDigit | CWord

datatype regex =
    Eps
  | Lit char
  | Cls "cc list"
  | Seq regex regex
  | Alt regex regex
  | Opt regex
  | Rep "cc list" nat "nat option"
  | Grp nat regex
  | WordB

type_synonym caps = "(nat \<times> string) list"

text \<open>A position of the matcher: the character before it (\<open>None\<close> at the start of the
  text), the rest of the text, and the groups captured so far (the latest first).\<close>

type_synonym mstate = "char option \<times> string \<times> caps"

text \<open>Under \<open>IGNORECASE\<close> the matcher lowers the character of the text and compares it
  with the lowered literal, with the lowered members of a range, or tests its category.
  A lowered character \<open>l\<close> is the lower-case form of a member of the range \<open>a-b\<close> when
  \<open>l\<close> itself lies in the range or its capital, 32 below, does (\<open>cc_match_range\<close>).\<close>

definition has_capital :: "char \<Rightarrow> bool" where
  "has_capital l = ((97 \<le> cp l \<and> cp l \<le> 122) \<or> (224 \<le> cp l \<and> cp l \<le> 246) \<or> (248 \<le> cp l \<and> cp l \<le> 254))"

fun cc_match :: "cc \<Rightarrow> char \<Rightarrow> bool" where
  "cc_match (CLit a) l = (lower_char a = l)"
| "cc_match (CRange a b) l =
     ((cp a \<le> cp l \<and> cp l \<le> cp b \<and> lower_char l = l) \<or>
      (has_capital l \<and> cp a \<le> cp l - 32 \<and> cp l - 32 \<le> cp b))"
| "cc_match CSpace l = is_space l"
| "cc_match CDigit l = is_digit l"
| "cc_match CWord l = is_word l"

definition in_class :: "cc list \<Rightarrow> char \<Rightarrow> bool" where
  "in_class items c = list_ex (\<lambda>it. cc_match it (lower_char c)) items"

definition lit_eq :: "char \<Rightarrow> char \<Rightarrow> bool" where
  "lit_eq a c = (lower_char c = lower_char a)"

fun word_opt :: "char option \<Rightarrow> bool" where
  "word_opt None = False"
| "word_opt (Some c) = is_word c"

fun next_char :: "string \<Rightarrow> char option" where
  "next_char [] = None"
| "next_char (c # cs) = Some c"

text \<open>\<open>\b\<close>: exactly one of the two neighbours is a word character; the start and the
  end of the text count as non-word.\<close>

definition at_boundary :: "char option \<Rightarrow> string \<Rightarrow> bool" where
  "at_boundary p s = (word_opt p \<noteq> word_opt (next_char s))"

text \<open>The greedy repetition: the longer matches come first, down to \<open>lo\<close> characters.\<close>

fun rep :: "cc list \<Rightarrow> nat \<Rightarrow> nat option \<Rightarrow> char option \<Rightarrow> string \<Rightarrow> caps \<Rightarrow> mstate list" where
  "rep items lo hi p [] g = (if lo = 0 then [(p, [], g)] else [])"
| "rep items lo hi p (c # cs) g =
     (if in_class items c \<and> hi \<noteq> Some 0
      then rep items (lo - 1) (map_option (\<lambda>h. h - 1) hi) (Some c) cs g else [])
     @ (if lo = 0 then [(p, c # cs, g)] else [])"

text \<open>\<open>ms r st\<close> lists the positions at which a match of \<open>r\<close> begun at \<open>st\<close> can end, in
  the order in which the backtracking matcher of \<open>re\<close> tries them: the head of the list
  is the match \<open>re\<close> reports.\<close>

fun ms :: "regex \<Rightarrow> mstate \<Rightarrow> mstate list" where
  "ms Eps st = [st]"
| "ms (Lit a) (p, s, g) =
     (case s of [] \<Rightarrow> [] | c # cs \<Rightarrow> if lit_eq a c then [(Some c, cs, g)] else [])"
| "ms (Cls items) (p, s, g) =
     (case s of [] \<Rightarrow> [] | c # cs \<Rightarrow> if in_class items c then [(Some c, cs, g)] else [])"
| "ms (Seq r1 r2) st = concat (map (ms r2) (ms r1 st))"
| "ms (Alt r1 r2) st = ms r1 st @ ms r2 st"
| "ms (Opt r) st = ms r st @ [st]"
| "ms (Rep items lo hi) (p, s, g) = rep items lo hi p s g"
| "ms (Grp n r) (p, s, g) =
     map (\<lambda>(p', s', g'). (p', s', (n, take (length s - length s') s) # g')) (ms r (p, s, g))"
| "ms WordB (p, s, g) = (if at_boundary p s then [(p, s, g)] else [])"

text \<open>A sequence of literal characters, and the concatenation of a list of parts.\<close>

fun lits :: "string \<Rightarrow> regex" where
  "lits [] = Eps"
| "lits (c # cs) = Seq (Lit c) (lits cs)"

fun cat :: "regex list \<Rightarrow> regex" where
  "cat [] = Eps"
| "cat (r # rs) = Seq r (cat rs)"

text \<open>\<open>re.search\<close>: the first position of the text, from the left, at which the pattern
  matches, the end of the text included; the result is the groups of that match.\<close>

fun search_from :: "regex \<Rightarrow> char option \<Rightarrow> string \<Rightarrow> caps option" where
  "search_from r p [] = (case ms r (p, [], []) of [] \<Rightarrow> None | (_, _, g) # _ \<Rightarrow> Some g)"
| "search_from r p (c # cs) =
     (case ms r (p, c # cs, []) of [] \<Rightarrow> search_from r (Some c) cs | (_, _, g) # _ \<Rightarrow> Some g)"

definition re_search :: "regex \<Rightarrow> string \<Rightarrow> caps option" where
  "re_search r text = search_from r None text"

text \<open>\<open>match.group(n)\<close>: \<open>None\<close> for a group that took no part in the match.\<close>

definition group :: "caps \<Rightarrow> nat \<Rightarrow> string option" where
  "group g n = map_of g n"


section \<open>The extraction functions\<close>

text \<open>\<open>word in text\<close>: the substring test of Python.\<close>

fun starts_with :: "string \<Rightarrow> string \<Rightarrow> bool" where
  "starts_with [] s = True"
| "starts_with (w # ws) [] = False"
| "starts_with (w # ws) (c # cs) = (w = c \<and> starts_with ws cs)"

fun py_in :: "string \<Rightarrow> string \<Rightarrow> bool" where
  "py_in w [] = (w = [])"
| "py_in w (c # cs) = (starts_with w (c # cs) \<or> py_in w cs)"

text \<open>The only exception the extraction functions could raise: \<open>.upper()\<close> called on the
  \<open>None\<close> of a group that took no part in the match.\<close>

datatype py_error = AttributeError

definition exam_keywords :: "string list" where
  "exam_keywords =
     [''exame'', ''resultado de'', ''hemograma'',
      ''resson'' @ [CHR 0xE2] @ ''ncia magn'' @ [CHR 0xE9] @ ''tica'', ''raio-x'', ''tomografia'']"

definition report_keywords :: "string list" where
  "report_keywords =
     [''laudo'', ''atestado'', ''relat'' @ [CHR 0xF3] @ ''rio m'' @ [CHR 0xE9] @ ''dico'',
      ''declara'' @ [CHR 0xE7, CHR 0xE3] @ ''o'']"

definition classify_document :: "string \<Rightarrow> string" where
  "classify_document text =
     (let lower_text = lower text in
      if list_ex (\<lambda>word. py_in word lower_text) exam_keywords then
        (if list_ex (\<lambda>word. py_in word lower_text) report_keywords then ''Laudo com Exame''
         else ''Exame'')
      else if list_ex (\<lambda>word. py_in word lower_text) report_keywords then ''Laudo''
      else ''Desconhecido'')"

text \<open>The pattern \<^verbatim>\<open>cid[-\s]?10?\s*[:\-\s]?\s*([a-zA-Z]\d{1,2}(\.\d{1,2})?)\<close>. The quantifier of
  \<^verbatim>\<open>10?\<close> binds the \<open>0\<close> alone.\<close>

definition cid_code :: regex where
  "cid_code =
     cat [Cls [CRange CHR ''a'' CHR ''z'', CRange CHR ''A'' CHR ''Z''], Rep [CDigit] 1 (Some 2),
          Opt (Grp 2 (cat [Lit CHR ''.'', Rep [CDigit] 1 (Some 2)]))]"

definition cid_pattern :: regex where
  "cid_pattern =
     cat [lits ''cid'', Opt (Cls [CLit CHR ''-'', CSpace]), Lit CHR ''1'', Opt (Lit CHR ''0''),
          Rep [CSpace] 0 None, Opt (Cls [CLit CHR '':'', CLit CHR ''-'', CSpace]),
          Rep [CSpace] 0 None, Grp 1 cid_code]"

definition extract_cid :: "string \<Rightarrow> py_error + string option" where
  "extract_cid text =
     (case re_search cid_pattern text of
        None \<Rightarrow> Inr None
      | Some m \<Rightarrow>
          (case group m 1 of
             None \<Rightarrow> Inl AttributeError
           | Some code \<Rightarrow> Inr (Some (upper code))))"

text \<open>The pattern \<^verbatim>\<open>\b(CRM|CRP|CREFITO|CRO|COREN)\b[\s/]*([A-Z]{2})?[\s/]*(\d+)\<close>.\<close>

definition registry_pattern :: regex where
  "registry_pattern =
     cat [WordB,
          Grp 1 (Alt (lits ''CRM'') (Alt (lits ''CRP'') (Alt (lits ''CREFITO'')
                  (Alt (lits ''CRO'') (lits ''COREN''))))),
          WordB, Rep [CSpace, CLit CHR ''/''] 0 None,
          Opt (Grp 2 (Rep [CRange CHR ''A'' CHR ''Z''] 2 (Some 2))),
          Rep [CSpace, CLit CHR ''/''] 0 None, Grp 3 (Rep [CDigit] 1 None)]"

text \<open>An f-string field prints a string as it is and \<open>None\<close> as the word None.\<close>

fun format_field :: "string option \<Rightarrow> string" where
  "format_field None = ''None''"
| "format_field (Some s) = s"

definition extract_registry :: "string \<Rightarrow> py_error + (string option \<times> string option)" where
  "extract_registry text =
     (case re_search registry_pattern text of
        None \<Rightarrow> Inr (None, None)
      | Some m \<Rightarrow>
          (let registry_type = group m 1; state = group m 2; number = group m 3 in
           case registry_type of
             None \<Rightarrow> Inl AttributeError
           | Some ty \<Rightarrow>
               (let registry_str =
                      upper ty @ ''/'' @
                      (case state of None \<Rightarrow> [] | Some st \<Rightarrow> if st \<noteq> [] then upper st else []) @
                      '' '' @ format_field number;
                    status = ''Ativo''
                in Inr (Some registry_str, Some status))))"

text \<open>\<open>check_afastamento\<close> builds each pattern as \<^verbatim>\<open>\b\<close> + keyword + \<^verbatim>\<open>\b\<close>; no keyword
  holds a character that is special in a pattern, so each is a run of literals.\<close>

definition afastamento_keywords :: "string list" where
  "afastamento_keywords =
     [''afastamento'', ''repouso'', ''suspens'' @ [CHR 0xE3] @ ''o de suas atividades'',
      ''impossibilitado de comparecer'', ''afastar-se'']"

definition keyword_pattern :: "string \<Rightarrow> regex" where
  "keyword_pattern keyword = cat [WordB, lits keyword, WordB]"

definition check_afastamento :: "string \<Rightarrow> bool" where
  "check_afastamento text =
     list_ex (\<lambda>keyword. re_search (keyword_pattern keyword) text \<noteq> None) afastamento_keywords"

text \<open>The pattern \<^verbatim>\<open>ass\w*:\<close>.\<close>

definition signature_pattern :: regex where
  "signature_pattern = cat [lits ''ass'', Rep [CWord] 0 None, Lit CHR '':'']"

definition check_signature :: "string \<Rightarrow> bool" where
  "check_signature text = (re_search signature_pattern text \<noteq> None)"

section \<open>The session and the approval rule\<close>

record analysis_result =
  doc_type :: string
  cid :: "string option"
  registry_info :: "string option \<times> string option"
  afastamento :: bool
  signature :: bool
  raw_text :: string

record session_state =
  analysis_complete :: bool
  results :: "analysis_result option"
  error_message :: "string option"

text \<open>\<open>main\<close> sets the three fields on the first run of a session and then shows the
  results when \<open>analysis_complete\<close> is set, the uploader otherwise.\<close>

definition initial_state :: session_state where
  "initial_state = \<lparr>analysis_complete = False, results = None, error_message = None\<rparr>"

datatype screen = AwaitingInput | ShowingResult

definition screen_of :: "session_state \<Rightarrow> screen" where
  "screen_of st = (if analysis_complete st then ShowingResult else AwaitingInput)"

text \<open>Opening the image and the OCR call are external: either one raises an exception,
  of which the program uses the text \<open>str(e)\<close>, or the OCR returns the text.\<close>

datatype ocr_outcome = Raised string | Recognised string

definition error_text :: "py_error \<Rightarrow> string" where
  "error_text e =
     [CHR 0x27] @ ''NoneType'' @ [CHR 0x27] @ '' object has no attribute '' @
     [CHR 0x27] @ ''upper'' @ [CHR 0x27]"

text \<open>The dictionary of results, built inside the \<open>try\<close> block: an exception of an
  extraction function leaves the block before anything is stored.\<close>

definition collect_results :: "string \<Rightarrow> py_error + analysis_result" where
  "collect_results text =
     (case extract_cid text of
        Inl e \<Rightarrow> Inl e
      | Inr c \<Rightarrow>
          (case extract_registry text of
             Inl e \<Rightarrow> Inl e
           | Inr reg \<Rightarrow>
               Inr \<lparr>doc_type = classify_document text, cid = c, registry_info = reg,
                    afastamento = check_afastamento text, signature = check_signature text,
                    raw_text = text\<rparr>))"

definition error_banner :: "string \<Rightarrow> string" where
  "error_banner e = ''Ocorreu um erro ao processar o arquivo: '' @ e"

definition display_uploader :: "session_state \<Rightarrow> ocr_outcome option \<Rightarrow> session_state" where
  "display_uploader st uploaded_file =
     (case uploaded_file of
        None \<Rightarrow> st
      | Some (Raised e) \<Rightarrow> st\<lparr>error_message := Some (error_banner e)\<rparr>
      | Some (Recognised text) \<Rightarrow>
          (case collect_results text of
             Inl e \<Rightarrow> st\<lparr>error_message := Some (error_banner (error_text e))\<rparr>
           | Inr res \<Rightarrow>
               st\<lparr>results := Some res, analysis_complete := True, error_message := None\<rparr>))"

text \<open>The truth value Python gives an optional string: \<open>None\<close> and the empty string are
  false.\<close>

fun truthy :: "string option \<Rightarrow> bool" where
  "truthy None = False"
| "truthy (Some s) = (s \<noteq> [])"

definition is_approved :: "analysis_result \<Rightarrow> bool" where
  "is_approved res =
     (let (registry, registry_status) = registry_info res;
          is_valid_type = (doc_type res \<in> set [''Laudo'', ''Laudo com Exame'']);
          is_active_registry = (registry_status = Some ''Ativo'')
      in list_all (\<lambda>b. b)
           [is_valid_type, truthy (cid res), is_active_registry, afastamento res, signature res])"


section \<open>Notions used to state the properties\<close>

text \<open>The character before the position reached after reading \<open>u\<close> from a position whose
  previous character is \<open>p\<close>.\<close>

fun prev_after :: "char option \<Rightarrow> string \<Rightarrow> char option" where
  "prev_after p [] = p"
| "prev_after p (c # cs) = prev_after (Some c) cs"

text \<open>An upper bound of a repetition, \<open>None\<close> for no bound.\<close>

fun le_opt :: "nat \<Rightarrow> nat option \<Rightarrow> bool" where
  "le_opt n None = True"
| "le_opt n (Some h) = (n \<le> h)"

text \<open>The declarative reading of a pattern: \<open>lang r p u s\<close> says that \<open>r\<close> matches the
  string \<open>u\<close> when \<open>p\<close> is the character before it and \<open>s\<close> the text after it (both
  matter to \<open>\b\<close> only). The matcher finds exactly these matches (\<open>in_ms\<close>,
  \<open>ms_complete\<close>).\<close>

fun lang :: "regex \<Rightarrow> char option \<Rightarrow> string \<Rightarrow> string \<Rightarrow> bool" where
  "lang Eps p u s = (u = [])"
| "lang (Lit a) p u s = (\<exists>c. u = [c] \<and> lit_eq a c)"
| "lang (Cls items) p u s = (\<exists>c. u = [c] \<and> in_class items c)"
| "lang (Seq r1 r2) p u s =
     (\<exists>u1 u2. u = u1 @ u2 \<and> lang r1 p u1 (u2 @ s) \<and> lang r2 (prev_after p u1) u2 s)"
| "lang (Alt r1 r2) p u s = (lang r1 p u s \<or> lang r2 p u s)"
| "lang (Opt r) p u s = (lang r p u s \<or> u = [])"
| "lang (Rep items lo hi) p u s =
     (lo \<le> length u \<and> le_opt (length u) hi \<and> list_all (in_class items) u)"
| "lang (Grp n r) p u s = lang r p u s"
| "lang WordB p u s = (u = [] \<and> at_boundary p s)"

text \<open>A word occurs in a text up to case; a text holds an exam keyword, a report keyword.\<close>

definition contains_ci :: "string \<Rightarrow> string \<Rightarrow> bool" where
  "contains_ci text w = (\<exists>a u b. text = a @ u @ b \<and> lower u = lower w)"

definition has_exam_keyword :: "string \<Rightarrow> bool" where
  "has_exam_keyword text = (\<exists>w \<in> set exam_keywords. contains_ci text w)"

definition has_report_keyword :: "string \<Rightarrow> bool" where
  "has_report_keyword text = (\<exists>w \<in> set report_keywords. contains_ci text w)"

text \<open>A phrase stands alone in a text when some occurrence of it, up to case, has no word
  character immediately before it and none immediately after it.\<close>

definition standalone :: "string \<Rightarrow> string \<Rightarrow> bool" where
  "standalone phrase text =
     (\<exists>pre u post. text = pre @ u @ post \<and> lower u = phrase \<and>
        \<not> word_opt (prev_after None pre) \<and> \<not> word_opt (next_char post))"

text \<open>The reading of the signature rule as a word that begins with the stem: the pattern
  \<^verbatim>\<open>\bass\w*:\<close>, with a word boundary in front.\<close>

definition stem_word_pattern :: regex where
  "stem_word_pattern = cat [WordB, lits ''ass'', Rep [CWord] 0 None, Lit CHR '':'']"

text \<open>A pattern without capture groups.\<close>

fun capfree :: "regex \<Rightarrow> bool" where
  "capfree (Seq r1 r2) = (capfree r1 \<and> capfree r2)"
| "capfree (Alt r1 r2) = (capfree r1 \<and> capfree r2)"
| "capfree (Opt r) = capfree r"
| "capfree (Grp n r) = False"
| "capfree r = True"

text \<open>The letters A-Z and a-z, and the optional neighbour of a position being a digit.\<close>

definition is_letter :: "char \<Rightarrow> bool" where
  "is_letter c = ((65 \<le> cp c \<and> cp c \<le> 90) \<or> (97 \<le> cp c \<and> cp c \<le> 122))"

fun digit_opt :: "char option \<Rightarrow> bool" where
  "digit_opt None = False"
| "digit_opt (Some c) = is_digit c"

text \<open>\<open>no_match_before r p pre rest\<close>: the pattern matches at no position inside \<open>pre\<close>
  when the text goes on with \<open>rest\<close>, so the first match of the text is not earlier than
  the end of \<open>pre\<close>.\<close>

fun no_match_before :: "regex \<Rightarrow> char option \<Rightarrow> string \<Rightarrow> string \<Rightarrow> bool" where
  "no_match_before r p [] rest = True"
| "no_match_before r p (c # cs) rest =
     (ms r (p, c # cs @ rest, []) = [] \<and> no_match_before r (Some c) cs rest)"







text \<open>The diagnosis pattern as the specification words it: the marker CID, optionally -10 or
  10, optionally a separator (colon, dash or space), then the code. Whitespace is allowed
  around the separator, as in the specification's example CID-10: M54.5
  (\<open>claimed_cid_pattern_example\<close>).\<close>

definition claimed_cid_pattern :: regex where
  "claimed_cid_pattern =
     cat [lits ''CID'', Opt (Alt (lits ''-10'') (lits ''10'')),
          Rep [CSpace] 0 None, Opt (Cls [CLit CHR '':'', CLit CHR ''-'', CSpace]),
          Rep [CSpace] 0 None,
          Grp 1 (cat [Cls [CRange CHR ''a'' CHR ''z'', CRange CHR ''A'' CHR ''Z''],
                      Rep [CDigit] 1 (Some 2),
                      Opt (cat [Lit CHR ''.'', Rep [CDigit] 1 (Some 2)])])]"

text \<open>Two patterns around the one of the program, which differ from it in the digits after the
  marker only: \<^verbatim>\<open>cid[-\s]?(10?)?\s*[:\-\s]?\s*(...)\<close>, where the digits may be 1, 10 or
  missing, and \<^verbatim>\<open>cid[-\s]?10\s*[:\-\s]?\s*(...)\<close>, where they are 10.\<close>

definition widest_cid_pattern :: regex where
  "widest_cid_pattern =
     cat [lits ''cid'', Opt (Cls [CLit CHR ''-'', CSpace]),
          Opt (cat [Lit CHR ''1'', Opt (Lit CHR ''0'')]),
          Rep [CSpace] 0 None, Opt (Cls [CLit CHR '':'', CLit CHR ''-'', CSpace]),
          Rep [CSpace] 0 None, Grp 1 cid_code]"

definition ten_cid_pattern :: regex where
  "ten_cid_pattern =
     cat [lits ''cid'', Opt (Cls [CLit CHR ''-'', CSpace]), Lit CHR ''1'', Lit CHR ''0'',
          Rep [CSpace] 0 None, Opt (Cls [CLit CHR '':'', CLit CHR ''-'', CSpace]),
          Rep [CSpace] 0 None, Grp 1 cid_code]"

text \<open>A pattern occurs in a text when it matches some substring of it, read in its place.\<close>

definition occurs :: "regex \<Rightarrow> string \<Rightarrow> bool" where
  "occurs r txt0 = (\<exists>a u b. txt0 = a @ u @ b \<and> lang r (prev_after None a) u b)"

section \<open>Facts about characters and the matcher\<close>

subsection \<open>Characters\<close>

lemma cp_lt: "cp c < 256"
  unfolding cp_def by (cases c) simp

lemma cp_inj: "cp c = cp d \<longleftrightarrow> c = d"
  unfolding cp_def by simp

lemma char_of_eq: "char_of (n::nat) = c \<longleftrightarrow> n mod 256 = cp c"
  unfolding cp_def by (metis char_of_char of_char_of)

lemma eq_char_of: "c = char_of (n::nat) \<longleftrightarrow> n mod 256 = cp c"
  using char_of_eq by metis

lemma cp_lower_char:
  "cp (lower_char c) =
     (if (65 \<le> cp c \<and> cp c \<le> 90) \<or> (192 \<le> cp c \<and> cp c \<le> 214) \<or> (216 \<le> cp c \<and> cp c \<le> 222)
      then cp c + 32 else cp c)"
  unfolding lower_char_def cp_def by simp

lemma lower_char_idem: "lower_char (lower_char c) = lower_char c"
  unfolding cp_inj[symmetric] cp_lower_char by auto

lemma is_word_lower: "is_word (lower_char c) = is_word c"
  using cp_lt[of c] unfolding is_word_def cp_lower_char by auto


lemma is_digit_lower: "is_digit (lower_char c) = is_digit c"
  unfolding is_digit_def cp_lower_char by auto

subsection \<open>Positions\<close>

lemma prev_after_append: "prev_after p (u @ v) = prev_after (prev_after p u) v"
  by (induction u arbitrary: p) auto

lemma le_opt_0: "le_opt 0 hi"
  by (cases hi) auto

lemma le_opt_pred:
  "(hi \<noteq> Some 0 \<and> le_opt n (map_option (\<lambda>h. h - Suc 0) hi)) = le_opt (Suc n) hi"
  by (cases hi) auto

lemma pred_le_Suc: "(lo - Suc 0 \<le> n) = (lo \<le> Suc n)"
  by arith

lemma in_rep:
  "(p', s', g') \<in> set (rep items lo hi p s g) \<longleftrightarrow>
     (\<exists>u. s = u @ s' \<and> p' = prev_after p u \<and> g' = g \<and> lo \<le> length u \<and>
          le_opt (length u) hi \<and> list_all (in_class items) u)"
proof (induction s arbitrary: lo hi p)
  case Nil
  show ?case by (auto simp: le_opt_0)
next
  case (Cons c cs)
  let ?R = "\<lambda>u. c # cs = u @ s' \<and> p' = prev_after p u \<and> g' = g \<and> lo \<le> length u \<and>
          le_opt (length u) hi \<and> list_all (in_class items) u"
  have here: "(p', s', g') \<in> set (if lo = 0 then [(p, c # cs, g)] else []) \<longleftrightarrow> ?R []"
    by (auto simp: le_opt_0)
  have more: "(p', s', g') \<in> set (if in_class items c \<and> hi \<noteq> Some 0
        then rep items (lo - 1) (map_option (\<lambda>h. h - 1) hi) (Some c) cs g else [])
      \<longleftrightarrow> (\<exists>v. ?R (c # v))"
  proof (cases "in_class items c")
    case True
    have "(p', s', g') \<in> set (if in_class items c \<and> hi \<noteq> Some 0
        then rep items (lo - 1) (map_option (\<lambda>h. h - 1) hi) (Some c) cs g else [])
      \<longleftrightarrow> (\<exists>v. cs = v @ s' \<and> p' = prev_after (Some c) v \<and> g' = g \<and> lo - Suc 0 \<le> length v \<and>
            (hi \<noteq> Some 0 \<and> le_opt (length v) (map_option (\<lambda>h. h - Suc 0) hi)) \<and>
            list_all (in_class items) v)"
      using True by (auto simp: Cons.IH)
    then show ?thesis
      unfolding le_opt_pred pred_le_Suc using True by auto
  next
    case False
    then show ?thesis by auto
  qed
  have "(\<exists>u. ?R u) \<longleftrightarrow> ?R [] \<or> (\<exists>v. ?R (c # v))"
  proof
    assume "\<exists>u. ?R u"
    then obtain u where u: "?R u" by blast
    show "?R [] \<or> (\<exists>v. ?R (c # v))"
    proof (cases u)
      case Nil
      with u show ?thesis by simp
    next
      case (Cons d v)
      with u have "d = c" by simp
      with u Cons show ?thesis by blast
    qed
  qed blast
  then show ?case
    using here more by (simp only: rep.simps set_append Un_iff) blast
qed

lemma in_ms:
  "(p', s', g') \<in> set (ms r (p, s, g)) \<Longrightarrow> \<exists>u. s = u @ s' \<and> p' = prev_after p u \<and> lang r p u s'"
proof (induction r arbitrary: p s g p' s' g')
  case (Seq r1 r2)
  from Seq.prems obtain p1 s1 g1 where
    m1: "(p1, s1, g1) \<in> set (ms r1 (p, s, g))" and m2: "(p', s', g') \<in> set (ms r2 (p1, s1, g1))"
    by auto
  from Seq.IH(1)[OF m1] obtain u1 where u1: "s = u1 @ s1" "p1 = prev_after p u1" "lang r1 p u1 s1"
    by blast
  from Seq.IH(2)[OF m2] obtain u2 where u2: "s1 = u2 @ s'" "p' = prev_after p1 u2" "lang r2 p1 u2 s'"
    by blast
  show ?case
    using u1 u2 by (intro exI[of _ "u1 @ u2"]) (auto simp: prev_after_append)
next
  case (Alt r1 r2)
  from Alt.prems have "(p', s', g') \<in> set (ms r1 (p, s, g)) \<or> (p', s', g') \<in> set (ms r2 (p, s, g))"
    by simp
  then show ?case
    using Alt.IH by fastforce
next
  case (Opt r)
  from Opt.prems have "(p', s', g') \<in> set (ms r (p, s, g)) \<or> (p', s', g') = (p, s, g)"
    by auto
  then show ?case
    using Opt.IH by fastforce
next
  case (Grp n r)
  from Grp.prems obtain g1 where "(p', s', g1) \<in> set (ms r (p, s, g))"
    by auto
  then show ?case
    using Grp.IH by fastforce
qed (auto simp: in_rep split: list.splits if_splits)

lemma ms_complete:
  "lang r p u s' \<Longrightarrow> \<exists>g'. (prev_after p u, s', g') \<in> set (ms r (p, u @ s', g))"
proof (induction r arbitrary: p u s' g)
  case (Seq r1 r2)
  from Seq.prems obtain u1 u2 where
    u: "u = u1 @ u2" "lang r1 p u1 (u2 @ s')" "lang r2 (prev_after p u1) u2 s'"
    by auto
  from Seq.IH(1)[OF u(2)] obtain g1 where
    g1: "(prev_after p u1, u2 @ s', g1) \<in> set (ms r1 (p, u1 @ u2 @ s', g))" by blast
  from Seq.IH(2)[OF u(3)] obtain g2 where
    g2: "(prev_after (prev_after p u1) u2, s', g2) \<in> set (ms r2 (prev_after p u1, u2 @ s', g1))"
    by blast
  show ?case
    using g1 g2 u(1) by (auto simp: prev_after_append intro!: exI[of _ g2] bexI[OF _ g1])
next
  case (Grp n r)
  from Grp.prems have "lang r p u s'" by simp
  from Grp.IH[OF this] obtain g1 where "(prev_after p u, s', g1) \<in> set (ms r (p, u @ s', g))"
    by blast
  then show ?case by (force simp: image_iff)
next
  case (Alt r1 r2)
  then show ?case by fastforce
next
  case (Opt r)
  then show ?case by fastforce
qed (auto simp: in_rep)

lemma ms_nonempty_iff:
  "ms r (p, s, g) \<noteq> [] \<longleftrightarrow> (\<exists>u s'. s = u @ s' \<and> lang r p u s')"
proof
  assume "ms r (p, s, g) \<noteq> []"
  then obtain p' s' g' where "(p', s', g') \<in> set (ms r (p, s, g))"
    by (cases "ms r (p, s, g)") auto
  from in_ms[OF this] show "\<exists>u s'. s = u @ s' \<and> lang r p u s'" by blast
next
  assume "\<exists>u s'. s = u @ s' \<and> lang r p u s'"
  then obtain u s' where "s = u @ s'" "lang r p u s'" by blast
  with ms_complete[of r p u s' g] show "ms r (p, s, g) \<noteq> []" by auto
qed

lemma search_from_None_iff:
  "search_from r p s = None \<longleftrightarrow> (\<forall>a b. s = a @ b \<longrightarrow> ms r (prev_after p a, b, []) = [])"
proof (induction s arbitrary: p)
  case Nil
  show ?case by (auto split: list.splits)
next
  case (Cons c cs)
  have split: "(\<forall>a b. c # cs = a @ b \<longrightarrow> ms r (prev_after p a, b, []) = []) \<longleftrightarrow>
      ms r (p, c # cs, []) = [] \<and> (\<forall>a b. cs = a @ b \<longrightarrow> ms r (prev_after (Some c) a, b, []) = [])"
    (is "?L \<longleftrightarrow> ?H \<and> ?T")
  proof
    assume L: ?L
    have ?H using L[rule_format, of "[]" "c # cs"] by simp
    moreover have ?T
    proof (intro allI impI)
      fix a b assume "cs = a @ b"
      then show "ms r (prev_after (Some c) a, b, []) = []"
        using L[rule_format, of "c # a" b] by simp
    qed
    ultimately show "?H \<and> ?T" ..
  next
    assume HT: "?H \<and> ?T"
    show ?L
    proof (intro allI impI)
      fix a b assume ab: "c # cs = a @ b"
      show "ms r (prev_after p a, b, []) = []"
      proof (cases a)
        case Nil
        with ab HT show ?thesis by simp
      next
        case (Cons d a')
        with ab HT show ?thesis by simp
      qed
    qed
  qed
  show ?case
    unfolding split using Cons.IH by (auto split: list.splits)
qed

lemma re_search_Some_iff:
  "re_search r text \<noteq> None \<longleftrightarrow>
     (\<exists>a u b. text = a @ u @ b \<and> lang r (prev_after None a) u b)"
  unfolding re_search_def search_from_None_iff
  using ms_nonempty_iff[of r _ _ "[]"] by (simp) blast

lemma lang_lits: "lang (lits w) p u s \<longleftrightarrow> lower u = lower w"
proof (induction w arbitrary: p u)
  case Nil
  show ?case by (simp add: lower_def)
next
  case (Cons c cs)
  show ?case
  proof
    assume "lang (lits (c # cs)) p u s"
    then obtain d u2 where "u = d # u2" "lit_eq c d" "lang (lits cs) (Some d) u2 s"
      by auto
    then show "lower u = lower (c # cs)"
      using Cons.IH by (simp add: lower_def lit_eq_def)
  next
    assume "lower u = lower (c # cs)"
    then obtain d u2 where u: "u = d # u2" "lower_char d = lower_char c" "lower u2 = lower cs"
      by (cases u) (auto simp: lower_def)
    then have "lang (lits cs) (Some d) u2 s"
      using Cons.IH by simp
    then have "u = [d] @ u2 \<and> lang (Lit c) p [d] (u2 @ s) \<and> lang (lits cs) (prev_after p [d]) u2 s"
      using u by (simp add: lit_eq_def)
    then show "lang (lits (c # cs)) p u s"
      unfolding lits.simps lang.simps by blast
  qed
qed

lemmas chr_ev = lower_def lower_char_def cp_def char_of_eq eq_char_of is_space_def is_digit_def
  is_word_def has_capital_def

lemma in_class_word: "in_class [CWord] c = is_word c"
  by (simp add: in_class_def is_word_lower)


lemma in_class_digit: "in_class [CDigit] c = is_digit c"
  by (simp add: in_class_def is_digit_lower)

lemma lower_char_eq_plain: "cp a < 65 \<or> (90 < cp a \<and> cp a < 97) \<Longrightarrow> lower_char c = a \<longleftrightarrow> c = a"
  unfolding cp_inj[symmetric] cp_lower_char by auto

lemma lit_eq_colon: "lit_eq CHR '':'' c \<longleftrightarrow> c = CHR '':''"
  unfolding lit_eq_def
  by (subst lower_char_eq_plain[of "lower_char CHR '':''" c]) (simp_all add: chr_ev)

lemma in_class_word_eta: "in_class [CWord] = is_word"
  by (rule ext) (rule in_class_word)

lemma lang_signature:
  "lang signature_pattern p u b \<longleftrightarrow>
     (\<exists>a w. u = a @ w @ [CHR '':''] \<and> lower a = ''ass'' \<and> list_all is_word w)"
proof -
  have low: "lower ''ass'' = ''ass''" by (simp add: chr_ev)
  have "lang signature_pattern p u b \<longleftrightarrow>
     (\<exists>u1 u2. u = u1 @ u2 \<and> lower u1 = ''ass'' \<and>
        (\<exists>v1 v2. u2 = v1 @ v2 \<and> list_all is_word v1 \<and>
           (\<exists>w1 w2. v2 = w1 @ w2 \<and> (\<exists>c. w1 = [c] \<and> c = CHR '':'') \<and> w2 = [])))"
    unfolding signature_pattern_def cat.simps lang.simps lang_lits low in_class_word_eta lit_eq_colon
    by (simp only: le_opt.simps le0 simp_thms)
  also have "\<dots> \<longleftrightarrow> (\<exists>a w. u = a @ w @ [CHR '':''] \<and> lower a = ''ass'' \<and> list_all is_word w)"
  proof (intro iffI; elim exE conjE)
    fix u1 u2 v1 v2 w1 w2 c
    assume "u = u1 @ u2" "lower u1 = ''ass''" "u2 = v1 @ v2" "list_all is_word v1"
      "v2 = w1 @ w2" "w1 = [c]" "c = CHR '':''" "w2 = []"
    then have "u = u1 @ v1 @ [CHR '':''] \<and> lower u1 = ''ass'' \<and> list_all is_word v1"
      by simp
    then show "\<exists>a w. u = a @ w @ [CHR '':''] \<and> lower a = ''ass'' \<and> list_all is_word w"
      by blast
  next
    fix a w
    assume "u = a @ w @ [CHR '':'']" "lower a = ''ass''" "list_all is_word w"
    then have "u = a @ (w @ [CHR '':'']) \<and> lower a = ''ass'' \<and>
        (w @ [CHR '':''] = w @ [CHR '':''] \<and> list_all is_word w \<and>
           ([CHR '':''] = [CHR '':''] @ [] \<and> (\<exists>c. [CHR '':''] = [c] \<and> c = CHR '':'') \<and> ([]::string) = []))"
      by simp
    then show "\<exists>u1 u2. u = u1 @ u2 \<and> lower u1 = ''ass'' \<and>
        (\<exists>v1 v2. u2 = v1 @ v2 \<and> list_all is_word v1 \<and>
           (\<exists>w1 w2. v2 = w1 @ w2 \<and> (\<exists>c. w1 = [c] \<and> c = CHR '':'') \<and> w2 = []))"
      by blast
  qed
  finally show ?thesis .
qed

lemma check_signature_iff:
  "check_signature text \<longleftrightarrow>
     (\<exists>pre a w post. text = pre @ a @ w @ CHR '':'' # post \<and> lower a = ''ass'' \<and> list_all is_word w)"
proof
  assume "check_signature text"
  then obtain a u b where "text = a @ u @ b" "lang signature_pattern (prev_after None a) u b"
    unfolding check_signature_def re_search_Some_iff by blast
  then obtain x w where "text = a @ (x @ w @ [CHR '':'']) @ b" "lower x = ''ass''" "list_all is_word w"
    unfolding lang_signature by blast
  then show "\<exists>pre a w post. text = pre @ a @ w @ CHR '':'' # post \<and> lower a = ''ass'' \<and> list_all is_word w"
    by (intro exI[of _ a] exI[of _ x] exI[of _ w] exI[of _ b]) simp
next
  assume "\<exists>pre a w post. text = pre @ a @ w @ CHR '':'' # post \<and> lower a = ''ass'' \<and> list_all is_word w"
  then obtain pre a w post where
    t: "text = pre @ a @ w @ CHR '':'' # post" "lower a = ''ass''" "list_all is_word w" by blast
  have "lang signature_pattern (prev_after None pre) (a @ w @ [CHR '':'']) post"
    unfolding lang_signature using t by blast
  moreover have "text = pre @ (a @ w @ [CHR '':'']) @ post" using t by simp
  ultimately show "check_signature text"
    unfolding check_signature_def re_search_Some_iff by blast
qed

lemma starts_with_iff: "starts_with w s \<longleftrightarrow> (\<exists>b. s = w @ b)"
  by (induction w s rule: starts_with.induct) auto

lemma py_in_iff: "py_in w t \<longleftrightarrow> (\<exists>a b. t = a @ w @ b)"
proof (induction t)
  case Nil
  show ?case by auto
next
  case (Cons c cs)
  have "(\<exists>a b. c # cs = a @ w @ b) \<longleftrightarrow> (\<exists>b. c # cs = w @ b) \<or> (\<exists>a b. cs = a @ w @ b)"
  proof
    assume "\<exists>a b. c # cs = a @ w @ b"
    then obtain a b where ab: "c # cs = a @ w @ b" by blast
    show "(\<exists>b. c # cs = w @ b) \<or> (\<exists>a b. cs = a @ w @ b)"
    proof (cases a)
      case Nil
      with ab show ?thesis by auto
    next
      case (Cons d a')
      with ab have "cs = a' @ w @ b" by simp
      then show ?thesis by blast
    qed
  next
    assume "(\<exists>b. c # cs = w @ b) \<or> (\<exists>a b. cs = a @ w @ b)"
    then show "\<exists>a b. c # cs = a @ w @ b"
    proof
      assume "\<exists>b. c # cs = w @ b"
      then obtain b where "c # cs = [] @ w @ b" by auto
      then show ?thesis by blast
    next
      assume "\<exists>a b. cs = a @ w @ b"
      then obtain a b where "c # cs = (c # a) @ w @ b" by auto
      then show ?thesis by blast
    qed
  qed
  then show ?case
    using Cons.IH by (simp add: starts_with_iff)
qed

lemma lower_append: "lower (a @ b) = lower a @ lower b"
  by (simp add: lower_def)

lemma lower_idem: "lower (lower w) = lower w"
  by (simp add: lower_def lower_char_idem)

lemma map_eq_appendD:
  "map f xs = ys @ zs \<Longrightarrow> \<exists>us vs. xs = us @ vs \<and> map f us = ys \<and> map f vs = zs"
  by (rule exI[of _ "take (length ys) xs"], rule exI[of _ "drop (length ys) xs"])
     (metis append_eq_conv_conj append_take_drop_id drop_map take_map)

lemma py_in_lower: "py_in (lower w) (lower text) \<longleftrightarrow> contains_ci text w"
proof
  assume "py_in (lower w) (lower text)"
  then obtain a b where "map lower_char text = a @ (lower w @ b)"
    unfolding py_in_iff lower_def by blast
  from map_eq_appendD[OF this] obtain a' r where
    r: "text = a' @ r" "map lower_char r = lower w @ b" by blast
  from map_eq_appendD[OF r(2)] obtain u b' where "r = u @ b'" "map lower_char u = lower w"
    by blast
  with r(1) have "text = a' @ u @ b' \<and> lower u = lower w"
    by (simp add: lower_def)
  then show "contains_ci text w"
    unfolding contains_ci_def by blast
next
  assume "contains_ci text w"
  then obtain a u b where "text = a @ u @ b" "lower u = lower w"
    unfolding contains_ci_def by blast
  then have "lower text = lower a @ lower w @ lower b"
    by (simp add: lower_append)
  then show "py_in (lower w) (lower text)"
    unfolding py_in_iff by blast
qed

lemma exam_keywords_lower: "map lower exam_keywords = exam_keywords"
  by (simp add: exam_keywords_def chr_ev)

lemma report_keywords_lower: "map lower report_keywords = report_keywords"
  by (simp add: report_keywords_def chr_ev)

lemma any_keyword:
  assumes "map lower kws = kws"
  shows "list_ex (\<lambda>word. py_in word (lower text)) kws \<longleftrightarrow> (\<exists>w \<in> set kws. contains_ci text w)"
proof -
  have "\<And>w. w \<in> set kws \<Longrightarrow> lower w = w"
    using assms by (metis map_idI map_eq_conv list.map_id)
  then show ?thesis
    unfolding list_ex_iff using py_in_lower by (metis)
qed

lemma has_exam_code: "has_exam_keyword text = list_ex (\<lambda>word. py_in word (lower text)) exam_keywords"
  unfolding has_exam_keyword_def by (rule any_keyword[OF exam_keywords_lower, symmetric])

lemma has_report_code: "has_report_keyword text = list_ex (\<lambda>word. py_in word (lower text)) report_keywords"
  unfolding has_report_keyword_def by (rule any_keyword[OF report_keywords_lower, symmetric])

lemmas ev = re_search_def in_class_def lit_eq_def at_boundary_def group_def upper_def upper_char_def
  chr_ev

lemma prev_after_last: "u \<noteq> [] \<Longrightarrow> prev_after p u = Some (last u)"
  by (induction u arbitrary: p) auto

lemma next_char_append: "u \<noteq> [] \<Longrightarrow> next_char (u @ b) = Some (hd u)"
  by (cases u) auto

lemma lang_keyword:
  assumes "lower kw = kw" "kw \<noteq> []" "is_word (hd kw)" "is_word (last kw)"
  shows "lang (keyword_pattern kw) p u b \<longleftrightarrow>
           lower u = kw \<and> \<not> word_opt p \<and> \<not> word_opt (next_char b)"
proof -
  have raw: "lang (keyword_pattern kw) p u b \<longleftrightarrow>
      at_boundary p (u @ b) \<and> lower u = kw \<and> at_boundary (prev_after p u) b"
    unfolding keyword_pattern_def cat.simps lang.simps lang_lits assms(1)
    by (auto simp: prev_after_append)
  show ?thesis
  proof (cases "lower u = kw")
    case False
    then show ?thesis using raw by simp
  next
    case True
    then have ne: "u \<noteq> []"
      using assms(2) by (auto simp: lower_def)
    have u: "u \<noteq> []" "lower_char (hd u) = hd kw" "lower_char (last u) = last kw"
      using ne True[symmetric] by (simp_all add: lower_def hd_map last_map)
    then have w: "is_word (hd u)" "is_word (last u)"
      using assms(3,4) is_word_lower by metis+
    show ?thesis
      unfolding raw using True u(1) w
      by (simp add: at_boundary_def prev_after_last next_char_append)
  qed
qed

lemma keyword_search_iff:
  assumes "lower kw = kw" "kw \<noteq> []" "is_word (hd kw)" "is_word (last kw)"
  shows "re_search (keyword_pattern kw) text \<noteq> None \<longleftrightarrow> standalone kw text"
  unfolding re_search_Some_iff lang_keyword[OF assms] standalone_def by blast

lemma afastamento_keywords_all:
  "list_all (\<lambda>kw. lower kw = kw \<and> kw \<noteq> [] \<and> is_word (hd kw) \<and> is_word (last kw))
     afastamento_keywords"
  by (simp add: afastamento_keywords_def chr_ev)

lemma afastamento_keywords_shape:
  "kw \<in> set afastamento_keywords \<Longrightarrow> lower kw = kw \<and> kw \<noteq> [] \<and> is_word (hd kw) \<and> is_word (last kw)"
  using afastamento_keywords_all unfolding list_all_iff by blast

lemma check_afastamento_iff:
  "check_afastamento text \<longleftrightarrow> (\<exists>kw \<in> set afastamento_keywords. standalone kw text)"
  unfolding check_afastamento_def list_ex_iff
  using keyword_search_iff afastamento_keywords_shape by blast

lemma lower_eq_appendD:
  "lower u = x @ y \<Longrightarrow> \<exists>a r. u = a @ r \<and> lower a = x \<and> lower r = y"
  unfolding lower_def by (rule map_eq_appendD)

lemma list_all_word_lower: "list_all is_word (lower w) = list_all is_word w"
  by (simp add: lower_def list_all_iff is_word_lower)

lemma check_signature_label:
  assumes "lower u = x @ y @ z" "x = ''ass''" "list_all is_word y" "z = [CHR '':'']"
  shows "check_signature (pre @ u @ post)"
proof -
  from lower_eq_appendD[OF assms(1)] obtain a r where a: "u = a @ r" "lower a = x" "lower r = y @ z"
    by (elim exE conjE)
  from lower_eq_appendD[OF a(3)] obtain w c where w: "r = w @ c" "lower w = y" "lower c = z"
    by (elim exE conjE)
  from w(3) assms(4) obtain d where d: "c = [d]" "lower_char d = CHR '':''"
    by (auto simp: lower_def)
  have "lower_char CHR '':'' = CHR '':''"
    by (simp add: chr_ev)
  with d(2) have "lit_eq CHR '':'' d"
    unfolding lit_eq_def by simp
  then have dc: "d = CHR '':''"
    unfolding lit_eq_colon .
  have "list_all is_word w"
    using assms(3) w(2) list_all_word_lower by metis
  then have "pre @ u @ post = pre @ a @ w @ CHR '':'' # post \<and> lower a = ''ass'' \<and> list_all is_word w"
    using a(1,2) w(1) d(1) dc assms(2) by simp
  then show ?thesis
    unfolding check_signature_iff by (intro exI)
qed

lemma in_ms_Seq:
  "x \<in> set (ms (Seq r1 r2) st) \<longleftrightarrow> (\<exists>y \<in> set (ms r1 st). x \<in> set (ms r2 y))"
  by auto

lemma concat_ms_Eps: "concat (map (ms Eps) xs) = xs"
  by (induction xs) auto

lemma ms_Seq_Eps: "ms (Seq r Eps) st = ms r st"
  by (simp add: concat_ms_Eps)

lemma capfree_caps:
  "capfree r \<Longrightarrow> (p', s', g') \<in> set (ms r (p, s, g)) \<Longrightarrow> g' = g"
proof (induction r arbitrary: p s g p' s' g')
  case (Seq r1 r2)
  from Seq.prems obtain p1 s1 g1 where
    "(p1, s1, g1) \<in> set (ms r1 (p, s, g))" "(p', s', g') \<in> set (ms r2 (p1, s1, g1))"
    by auto
  with Seq.IH Seq.prems(1) show ?case by (metis capfree.simps(1))
next
  case (Alt r1 r2)
  then show ?case by auto
next
  case (Opt r)
  then show ?case by auto
qed (auto simp: in_rep split: list.splits if_splits)

lemma in_ms_Grp:
  "(p', s', g') \<in> set (ms (Grp n r) (p, s, g)) \<Longrightarrow>
     \<exists>u g1. s = u @ s' \<and> lang r p u s' \<and> p' = prev_after p u \<and> g' = (n, u) # g1 \<and>
            (p', s', g1) \<in> set (ms r (p, s, g))"
proof -
  assume "(p', s', g') \<in> set (ms (Grp n r) (p, s, g))"
  then obtain g1 where g1: "(p', s', g1) \<in> set (ms r (p, s, g))"
    "g' = (n, take (length s - length s') s) # g1"
    by auto
  from in_ms[OF g1(1)] obtain u where u: "s = u @ s'" "p' = prev_after p u" "lang r p u s'"
    by blast
  then have "take (length s - length s') s = u" by simp
  with g1 u show ?thesis by blast
qed

lemma search_from_SomeD:
  "search_from r p s = Some g \<Longrightarrow>
     \<exists>a b p' s'. s = a @ b \<and> ms r (prev_after p a, b, []) \<noteq> [] \<and>
        hd (ms r (prev_after p a, b, [])) = (p', s', g)"
proof (induction s arbitrary: p)
  case Nil
  then have "ms r (prev_after p [], [], []) \<noteq> [] \<and> (\<exists>p' s'. hd (ms r (prev_after p [], [], [])) = (p', s', g))"
    by (auto split: list.splits)
  then show ?case by blast
next
  case (Cons c cs)
  show ?case
  proof (cases "ms r (p, c # cs, [])")
    case Nil
    with Cons.prems have "search_from r (Some c) cs = Some g" by simp
    from Cons.IH[OF this] obtain a b p' s' where
      "cs = a @ b" "ms r (prev_after (Some c) a, b, []) \<noteq> []"
      "hd (ms r (prev_after (Some c) a, b, [])) = (p', s', g)" by blast
    then have "c # cs = (c # a) @ b \<and> ms r (prev_after p (c # a), b, []) \<noteq> [] \<and>
        hd (ms r (prev_after p (c # a), b, [])) = (p', s', g)" by simp
    then show ?thesis by blast
  next
    case (Cons m rest)
    with Cons.prems obtain p' s' where "m = (p', s', g)"
      by (cases m) auto
    with Cons have "c # cs = [] @ (c # cs) \<and> ms r (prev_after p [], c # cs, []) \<noteq> [] \<and>
        hd (ms r (prev_after p [], c # cs, [])) = (p', s', g)" by simp
    then show ?thesis by blast
  qed
qed

lemma re_search_SomeD:
  "re_search r text = Some g \<Longrightarrow> \<exists>p s p' s'. (p', s', g) \<in> set (ms r (p, s, []))"
proof -
  assume "re_search r text = Some g"
  from search_from_SomeD[OF this[unfolded re_search_def]] obtain a b p' s' where
    "ms r (prev_after None a, b, []) \<noteq> []" "hd (ms r (prev_after None a, b, [])) = (p', s', g)"
    by blast
  then have "(p', s', g) \<in> set (ms r (prev_after None a, b, []))"
    by (metis hd_in_set)
  then show ?thesis by blast
qed

lemma in_class_letters:
  "in_class [CRange CHR ''a'' CHR ''z'', CRange CHR ''A'' CHR ''Z''] c = is_letter c"
proof -
  have a: "cp CHR ''a'' = 97" "cp CHR ''z'' = 122" "cp CHR ''A'' = 65" "cp CHR ''Z'' = 90"
    by (simp_all add: cp_def)
  show ?thesis
    using cp_lt[of c]
    by (simp add: in_class_def a has_capital_def is_letter_def cp_inj[symmetric] cp_lower_char)
       arith
qed

lemma in_class_capitals:
  "in_class [CRange CHR ''A'' CHR ''Z''] c = is_letter c"
proof -
  have a: "cp CHR ''A'' = 65" "cp CHR ''Z'' = 90"
    by (simp_all add: cp_def)
  show ?thesis
    using cp_lt[of c]
    by (simp add: in_class_def a has_capital_def is_letter_def cp_inj[symmetric] cp_lower_char)
       arith
qed

lemma peel_Seq: "x \<in> set (ms (Seq r R) st) \<Longrightarrow> \<exists>y. x \<in> set (ms R y)"
  by auto

lemma peel_capfree:
  "(p', s', g') \<in> set (ms (Seq r R) (p, s, g)) \<Longrightarrow> capfree r \<Longrightarrow>
     \<exists>q t. (p', s', g') \<in> set (ms R (q, t, g))"
proof -
  assume a: "(p', s', g') \<in> set (ms (Seq r R) (p, s, g))" and c: "capfree r"
  then obtain q t h where y: "(q, t, h) \<in> set (ms r (p, s, g))" "(p', s', g') \<in> set (ms R (q, t, h))"
    by auto
  from capfree_caps[OF c y(1)] y(2) show ?thesis by blast
qed

lemma cid_match_caps:
  assumes "(p', s', g') \<in> set (ms cid_pattern (p, s, g))"
  shows "\<exists>u g1 q t. g' = (1, u) # g1 \<and> lang cid_code q u t"
proof -
  from assms have "\<exists>y. (p', s', g') \<in> set (ms (Seq (Grp 1 cid_code) Eps) y)"
    unfolding cid_pattern_def cat.simps
    by (blast dest: peel_Seq)
  then obtain q t h where "(p', s', g') \<in> set (ms (Grp 1 cid_code) (q, t, h))"
    unfolding ms_Seq_Eps by (metis prod_cases3)
  from in_ms_Grp[OF this] show ?thesis by blast
qed

lemma lang_cid_code:
  assumes "lang cid_code q u t"
  shows "u \<noteq> [] \<and> list_all (\<lambda>c. is_letter c \<or> is_digit c \<or> c = CHR ''.'') u"
proof -
  have dot: "lit_eq CHR ''.'' c \<longleftrightarrow> c = CHR ''.''" for c
    unfolding lit_eq_def
    by (subst lower_char_eq_plain[of "lower_char CHR ''.''" c]) (simp_all add: chr_ev)
  show ?thesis
    using assms unfolding cid_code_def cat.simps lang.simps in_class_letters dot
    by (auto simp: in_class_digit list_all_iff)
qed

lemma upper_Nil_iff: "upper u = [] \<longleftrightarrow> u = []"
  by (cases u) (auto simp: upper_def upper_char_def)

lemma extract_cid_cases:
  "(re_search cid_pattern text = None \<and> extract_cid text = Inr None) \<or>
   (\<exists>code. re_search cid_pattern text \<noteq> None \<and> extract_cid text = Inr (Some code) \<and> code \<noteq> [])"
proof (cases "re_search cid_pattern text")
  case None
  then show ?thesis by (simp add: extract_cid_def)
next
  case (Some g)
  from re_search_SomeD[OF this] obtain p s p' s' where "(p', s', g) \<in> set (ms cid_pattern (p, s, []))"
    by blast
  from cid_match_caps[OF this] obtain u g1 q t where u: "g = (1, u) # g1" "lang cid_code q u t"
    by blast
  from lang_cid_code[OF u(2)] have "u \<noteq> []" by simp
  then show ?thesis
    using Some u(1) by (simp add: extract_cid_def group_def upper_Nil_iff)
qed

lemma cp_char_of: "n < 256 \<Longrightarrow> cp (char_of n) = n"
  unfolding cp_def by simp

lemma cc_match_range:
  "cc_match (CRange a b) (lower_char c) \<longleftrightarrow>
     (\<exists>x. cp a \<le> cp x \<and> cp x \<le> cp b \<and> lower_char x = lower_char c)"
proof
  assume m: "cc_match (CRange a b) (lower_char c)"
  define l where "l = lower_char c"
  from m have "(cp a \<le> cp l \<and> cp l \<le> cp b \<and> lower_char l = l) \<or>
      (has_capital l \<and> cp a \<le> cp l - 32 \<and> cp l - 32 \<le> cp b)"
    unfolding l_def by simp
  then show "\<exists>x. cp a \<le> cp x \<and> cp x \<le> cp b \<and> lower_char x = lower_char c"
  proof
    assume "cp a \<le> cp l \<and> cp l \<le> cp b \<and> lower_char l = l"
    then show ?thesis unfolding l_def by blast
  next
    assume h: "has_capital l \<and> cp a \<le> cp l - 32 \<and> cp l - 32 \<le> cp b"
    define x where "x = char_of (cp l - 32)"
    have cx: "cp x = cp l - 32"
      unfolding x_def using cp_lt[of l] by (simp add: cp_char_of)
    have "cp (lower_char x) = cp l"
      using h unfolding cp_lower_char cx has_capital_def by auto
    then have "lower_char x = l"
      unfolding cp_inj .
    with h cx have "cp a \<le> cp x \<and> cp x \<le> cp b \<and> lower_char x = lower_char c"
      unfolding l_def by simp
    then show ?thesis ..
  qed
next
  assume "\<exists>x. cp a \<le> cp x \<and> cp x \<le> cp b \<and> lower_char x = lower_char c"
  then obtain x where x: "cp a \<le> cp x" "cp x \<le> cp b" "lower_char x = lower_char c"
    by blast
  define l where "l = lower_char c"
  have idem: "lower_char l = l"
    unfolding l_def by (rule lower_char_idem)
  have cl: "cp l = (if (65 \<le> cp x \<and> cp x \<le> 90) \<or> (192 \<le> cp x \<and> cp x \<le> 214) \<or>
      (216 \<le> cp x \<and> cp x \<le> 222) then cp x + 32 else cp x)"
    using x(3) cp_lower_char[of x] unfolding l_def by simp
  have "(cp a \<le> cp l \<and> cp l \<le> cp b \<and> lower_char l = l) \<or>
      (has_capital l \<and> cp a \<le> cp l - 32 \<and> cp l - 32 \<le> cp b)"
    using x(1,2) idem cl unfolding has_capital_def by auto
  then show "cc_match (CRange a b) (lower_char c)"
    unfolding l_def by simp
qed

lemma is_letter_lower: "is_letter (lower_char c) = is_letter c"
  using cp_lt[of c] unfolding is_letter_def cp_lower_char by auto

lemma lower_letters:
  assumes "lower u = w" "list_all is_letter w"
  shows "list_all is_letter u"
proof -
  have "list_all is_letter (map lower_char u)"
    using assms unfolding lower_def by simp
  then show ?thesis
    by (simp add: list_all_iff is_letter_lower)
qed

lemma in_ms_SeqD:
  "x \<in> set (ms (Seq r1 r2) st) \<Longrightarrow>
     \<exists>q t h. (q, t, h) \<in> set (ms r1 st) \<and> x \<in> set (ms r2 (q, t, h))"
  by auto

lemma registry_match_caps:
  assumes "(p', s', g') \<in> set (ms registry_pattern (p, s, []))"
  shows "\<exists>ty num. ty \<noteq> [] \<and> num \<noteq> [] \<and> list_all is_letter ty \<and> list_all is_digit num \<and>
           (g' = [(3, num), (1, ty)] \<or>
            (\<exists>st. st \<noteq> [] \<and> list_all is_letter st \<and> g' = [(3, num), (2, st), (1, ty)]))"
proof -
  let ?alts = "Alt (lits ''CRM'') (Alt (lits ''CRP'') (Alt (lits ''CREFITO'')
                  (Alt (lits ''CRO'') (lits ''COREN''))))"
  let ?R4 = "cat [Rep [CSpace, CLit CHR ''/''] 0 None,
          Opt (Grp 2 (Rep [CRange CHR ''A'' CHR ''Z''] 2 (Some 2))),
          Rep [CSpace, CLit CHR ''/''] 0 None, Grp 3 (Rep [CDigit] 1 None)]"
  let ?R6 = "cat [Rep [CSpace, CLit CHR ''/''] 0 None, Grp 3 (Rep [CDigit] 1 None)]"
  from assms have 1: "(p', s', g') \<in> set (ms (Seq WordB (Seq (Grp 1 ?alts) (Seq WordB ?R4))) (p, s, []))"
    unfolding registry_pattern_def cat.simps .
  have cw: "capfree WordB" and cr: "capfree (Rep [CSpace, CLit CHR ''/''] 0 None)"
    by simp_all
  from peel_capfree[OF 1 cw] obtain q1 t1 where
    2: "(p', s', g') \<in> set (ms (Seq (Grp 1 ?alts) (Seq WordB ?R4)) (q1, t1, []))"
    by blast
  from in_ms_SeqD[OF 2] obtain q2 t2 h2 where 3: "(q2, t2, h2) \<in> set (ms (Grp 1 ?alts) (q1, t1, []))"
    and 4: "(p', s', g') \<in> set (ms (Seq WordB ?R4) (q2, t2, h2))"
    by blast
  from in_ms_Grp[OF 3] obtain ty g1 where ty: "lang ?alts q1 ty t2" "h2 = (1, ty) # g1"
    "(q2, t2, g1) \<in> set (ms ?alts (q1, t1, []))" by blast
  have "capfree ?alts" by simp
  from capfree_caps[OF this ty(3)] have g1: "g1 = []" .
  have tyne: "ty \<noteq> []"
    using ty(1) by (auto simp: lang_lits lower_def)
  have tok: "list_all is_letter (lower ''CRM'')" "list_all is_letter (lower ''CRP'')"
    "list_all is_letter (lower ''CREFITO'')" "list_all is_letter (lower ''CRO'')"
    "list_all is_letter (lower ''COREN'')"
    by (simp_all add: is_letter_def chr_ev)
  have tyl: "list_all is_letter ty"
    using ty(1) tok unfolding lang.simps lang_lits by (auto intro: lower_letters)
  from peel_capfree[OF 4 cw] obtain q3 t3 where
    5: "(p', s', g') \<in> set (ms ?R4 (q3, t3, h2))" by blast
  then have "(p', s', g') \<in> set (ms (Seq (Rep [CSpace, CLit CHR ''/''] 0 None)
      (Seq (Opt (Grp 2 (Rep [CRange CHR ''A'' CHR ''Z''] 2 (Some 2)))) ?R6)) (q3, t3, h2))"
    unfolding cat.simps .
  from peel_capfree[OF this cr] obtain q4 t4 where
    6: "(p', s', g') \<in> set (ms (Seq (Opt (Grp 2 (Rep [CRange CHR ''A'' CHR ''Z''] 2 (Some 2)))) ?R6) (q4, t4, h2))"
    by blast
  from in_ms_SeqD[OF 6] obtain q5 t5 h5 where
    7: "(q5, t5, h5) \<in> set (ms (Opt (Grp 2 (Rep [CRange CHR ''A'' CHR ''Z''] 2 (Some 2)))) (q4, t4, h2))"
    and 8: "(p', s', g') \<in> set (ms ?R6 (q5, t5, h5))"
    by blast
  from 7 have "h5 = h2 \<or> (q5, t5, h5) \<in> set (ms (Grp 2 (Rep [CRange CHR ''A'' CHR ''Z''] 2 (Some 2))) (q4, t4, h2))"
    unfolding ms.simps(6) by auto
  then have h5: "h5 = h2 \<or> (\<exists>st. st \<noteq> [] \<and> list_all is_letter st \<and> h5 = (2, st) # h2)"
  proof
    assume "h5 = h2" then show ?thesis by simp
  next
    assume a: "(q5, t5, h5) \<in> set (ms (Grp 2 (Rep [CRange CHR ''A'' CHR ''Z''] 2 (Some 2))) (q4, t4, h2))"
    from in_ms_Grp[OF a] obtain st g2 where st: "lang (Rep [CRange CHR ''A'' CHR ''Z''] 2 (Some 2)) q4 st t5"
      "h5 = (2, st) # g2" "(q5, t5, g2) \<in> set (ms (Rep [CRange CHR ''A'' CHR ''Z''] 2 (Some 2)) (q4, t4, h2))"
      by blast
    have "capfree (Rep [CRange CHR ''A'' CHR ''Z''] 2 (Some 2))" by simp
    from capfree_caps[OF this st(3)] have "g2 = h2" .
    moreover have "st \<noteq> []" using st(1) by auto
    moreover have "list_all is_letter st"
      using st(1) by (simp add: list_all_iff in_class_capitals)
    ultimately show ?thesis using st(2) by blast
  qed
  from 8 have "(p', s', g') \<in> set (ms (Seq (Rep [CSpace, CLit CHR ''/''] 0 None)
      (Seq (Grp 3 (Rep [CDigit] 1 None)) Eps)) (q5, t5, h5))"
    unfolding cat.simps .
  from peel_capfree[OF this cr] obtain q6 t6 where
    "(p', s', g') \<in> set (ms (Seq (Grp 3 (Rep [CDigit] 1 None)) Eps) (q6, t6, h5))" by blast
  then have 9: "(p', s', g') \<in> set (ms (Grp 3 (Rep [CDigit] 1 None)) (q6, t6, h5))"
    unfolding ms_Seq_Eps .
  from in_ms_Grp[OF 9] obtain num g3 where num: "lang (Rep [CDigit] 1 None) q6 num s'"
    "g' = (3, num) # g3" "(p', s', g3) \<in> set (ms (Rep [CDigit] 1 None) (q6, t6, h5))"
    by blast
  have "capfree (Rep [CDigit] 1 None)" by simp
  from capfree_caps[OF this num(3)] have g3: "g3 = h5" .
  have "num \<noteq> []" using num(1) by auto
  moreover have "list_all is_digit num"
    using num(1) by (simp add: list_all_iff in_class_digit)
  ultimately show ?thesis
    using tyne tyl h5 g3 num(2) ty(2) g1 by blast
qed

lemma extract_registry_cases:
  "(re_search registry_pattern text = None \<and> extract_registry text = Inr (None, None)) \<or>
   (\<exists>label. re_search registry_pattern text \<noteq> None \<and>
      extract_registry text = Inr (Some label, Some ''Ativo''))"
proof (cases "re_search registry_pattern text")
  case None
  then show ?thesis by (simp add: extract_registry_def)
next
  case (Some g)
  from re_search_SomeD[OF this] obtain p s p' s' where
    "(p', s', g) \<in> set (ms registry_pattern (p, s, []))" by blast
  from registry_match_caps[OF this] obtain ty where "group g 1 = Some ty"
    unfolding group_def by auto
  then show ?thesis
    using Some by (simp add: extract_registry_def Let_def)
qed

text \<open>The groups the program puts in upper case hold letters A-Z and a-z, digits and the full
  stop only, never U+00B5 or U+00FF.\<close>

lemma cid_group_chars:
  assumes "re_search cid_pattern txt0 = Some g"
  shows "\<exists>code. group g 1 = Some code \<and>
           list_all (\<lambda>c. is_letter c \<or> is_digit c \<or> c = CHR ''.'') code"
proof -
  from re_search_SomeD[OF assms] obtain p s p' s' where
    "(p', s', g) \<in> set (ms cid_pattern (p, s, []))" by blast
  from cid_match_caps[OF this] obtain u g1 q t where "g = (1, u) # g1" "lang cid_code q u t"
    by blast
  with lang_cid_code[of q u t] show ?thesis
    by (simp add: group_def)
qed

lemma registry_group_chars:
  assumes "re_search registry_pattern txt0 = Some g"
  shows "\<exists>ty num. group g 1 = Some ty \<and> list_all is_letter ty \<and>
           group g 3 = Some num \<and> list_all is_digit num \<and>
           (group g 2 = None \<or> (\<exists>st. group g 2 = Some st \<and> list_all is_letter st))"
proof -
  from re_search_SomeD[OF assms] obtain p s p' s' where
    "(p', s', g) \<in> set (ms registry_pattern (p, s, []))" by blast
  from registry_match_caps[OF this] show ?thesis
    unfolding group_def by auto
qed

lemma group_chars_upper:
  "is_letter c \<or> is_digit c \<or> c = CHR ''.'' \<Longrightarrow> cp c \<noteq> 181 \<and> cp c \<noteq> 255"
  unfolding is_letter_def is_digit_def cp_inj[symmetric] by (auto simp: cp_def)

lemma collect_results_total:
  "\<exists>c reg. extract_cid text = Inr c \<and> extract_registry text = Inr reg \<and>
     collect_results text =
       Inr \<lparr>doc_type = classify_document text, cid = c, registry_info = reg,
            afastamento = check_afastamento text, signature = check_signature text,
            raw_text = text\<rparr>"
proof -
  from extract_cid_cases[of "text"] obtain c where c: "extract_cid text = Inr c" by blast
  from extract_registry_cases[of "text"] obtain reg where r: "extract_registry text = Inr reg" by blast
  show ?thesis
    using c r by (simp add: collect_results_def)
qed

lemmas prog_ev = collect_results_def extract_cid_def extract_registry_def check_afastamento_def
  check_signature_def classify_document_def cid_pattern_def cid_code_def registry_pattern_def
  keyword_pattern_def signature_pattern_def exam_keywords_def report_keywords_def
  afastamento_keywords_def Let_def ev

lemma scenario_approved:
  "collect_results ''LAUDO CID-10: J45.0 CRM/RJ 98765 afastamento Ass: Dr'' =
     Inr \<lparr>doc_type = ''Laudo'', cid = Some ''J45.0'',
          registry_info = (Some ''CRM/RJ 98765'', Some ''Ativo''),
          afastamento = True, signature = True,
          raw_text = ''LAUDO CID-10: J45.0 CRM/RJ 98765 afastamento Ass: Dr''\<rparr>"
  by (simp add: prog_ev)

lemma scenario_no_cid:
  "collect_results ''LAUDO CRM/RJ 98765 afastamento Ass: Dr'' =
     Inr \<lparr>doc_type = ''Laudo'', cid = None,
          registry_info = (Some ''CRM/RJ 98765'', Some ''Ativo''),
          afastamento = True, signature = True,
          raw_text = ''LAUDO CRM/RJ 98765 afastamento Ass: Dr''\<rparr>"
  by (simp add: prog_ev)

lemma search_skip:
  "no_match_before r p pre rest \<Longrightarrow>
     search_from r p (pre @ rest) = search_from r (prev_after p pre) rest"
  by (induction pre arbitrary: p) auto

lemma rep_digits_stop:
  "\<not> digit_opt (next_char post) \<Longrightarrow>
     rep [CDigit] lo hi p post g = (if lo = 0 then [(p, post, g)] else [])"
  by (cases post) (auto simp: in_class_digit)

lemma registry_here_state:
  assumes "\<not> word_opt p" "\<not> digit_opt (next_char post)"
  shows "\<exists>q t others. ms registry_pattern (p, ''CRM/SP 123456'' @ post, []) =
           (q, t, [(3, ''123456''), (2, ''SP''), (1, ''CRM'')]) # others"
  using assms
  by (simp add: registry_pattern_def ev rep_digits_stop Suc_diff_le)

lemma registry_here_no_state:
  assumes "\<not> word_opt p" "\<not> digit_opt (next_char post)"
  shows "\<exists>q t others. ms registry_pattern (p, ''CRM 123456'' @ post, []) =
           (q, t, [(3, ''123456''), (1, ''CRM'')]) # others"
  using assms
  by (simp add: registry_pattern_def ev rep_digits_stop Suc_diff_le)

lemma search_from_hit:
  "ms r (p, c # cs, []) = (q, t, g) # others \<Longrightarrow> search_from r p (c # cs) = Some g"
  by simp

lemma registry_search_state:
  assumes "no_match_before registry_pattern None pre (''CRM/SP 123456'' @ post)"
    and "\<not> word_opt (prev_after None pre)" and "\<not> digit_opt (next_char post)"
  shows "re_search registry_pattern (pre @ ''CRM/SP 123456'' @ post) =
           Some [(3, ''123456''), (2, ''SP''), (1, ''CRM'')]"
proof -
  from registry_here_state[OF assms(2,3)] obtain q t others where
    "ms registry_pattern (prev_after None pre, ''CRM/SP 123456'' @ post, []) =
       (q, t, [(3, ''123456''), (2, ''SP''), (1, ''CRM'')]) # others" by blast
  then have "search_from registry_pattern (prev_after None pre) (''CRM/SP 123456'' @ post) =
      Some [(3, ''123456''), (2, ''SP''), (1, ''CRM'')]"
    using search_from_hit[of registry_pattern "prev_after None pre" "CHR ''C''" "''RM/SP 123456'' @ post"]
    by simp
  then show ?thesis
    unfolding re_search_def search_skip[OF assms(1)] .
qed

lemma registry_search_no_state:
  assumes "no_match_before registry_pattern None pre (''CRM 123456'' @ post)"
    and "\<not> word_opt (prev_after None pre)" and "\<not> digit_opt (next_char post)"
  shows "re_search registry_pattern (pre @ ''CRM 123456'' @ post) =
           Some [(3, ''123456''), (1, ''CRM'')]"
proof -
  from registry_here_no_state[OF assms(2,3)] obtain q t others where
    "ms registry_pattern (prev_after None pre, ''CRM 123456'' @ post, []) =
       (q, t, [(3, ''123456''), (1, ''CRM'')]) # others" by blast
  then have "search_from registry_pattern (prev_after None pre) (''CRM 123456'' @ post) =
      Some [(3, ''123456''), (1, ''CRM'')]"
    using search_from_hit[of registry_pattern "prev_after None pre" "CHR ''C''" "''RM 123456'' @ post"]
    by simp
  then show ?thesis
    unfolding re_search_def search_skip[OF assms(1)] .
qed


















































lemma occurs_code: "occurs r txt0 = (re_search r txt0 \<noteq> None)"
  unfolding occurs_def re_search_Some_iff ..

lemma extract_cid_none_iff: "extract_cid txt0 = Inr None \<longleftrightarrow> \<not> occurs cid_pattern txt0"
  unfolding occurs_code using extract_cid_cases[of txt0] by auto

lemmas cid_ev = extract_cid_def cid_pattern_def cid_code_def claimed_cid_pattern_def
  widest_cid_pattern_def ten_cid_pattern_def ev

text \<open>On the specification's example the claimed pattern and the program agree.\<close>

lemma claimed_cid_pattern_example:
  "re_search claimed_cid_pattern ''CID-10: M54.5'' = Some [(1, ''M54.5'')] \<and>
   extract_cid ''CID-10: M54.5'' = Inr (Some ''M54.5'')"
  by (simp add: cid_ev)

text \<open>The program's pattern asks for the digit 1 after the marker and makes the 0 alone
  optional: where the code follows the marker CID directly, or after a separator alone, there
  is no match, and a marker followed by 1 alone is accepted.\<close>

lemma extract_cid_marker_alone:
  "extract_cid ''CID M54.5'' = Inr None \<and> extract_cid ''CID:M54.5'' = Inr None \<and>
   extract_cid ''CID1 M54'' = Inr (Some ''M54'')"
  by (simp add: cid_ev)

section \<open>Properties of the program\<close>

text \<open>C3. \<open>classify_document\<close> follows the precedence: an exam keyword and a report
  keyword give Laudo com Exame; else an exam keyword gives Exame; else a report keyword gives
  Laudo; else Desconhecido. A keyword is present when some substring of the text equals it
  up to case.\<close>

theorem classify_document_precedence:
  "classify_document text =
     (if has_exam_keyword text \<and> has_report_keyword text then ''Laudo com Exame''
      else if has_exam_keyword text then ''Exame''
      else if has_report_keyword text then ''Laudo''
      else ''Desconhecido'')"
  unfolding has_exam_code has_report_code classify_document_def Let_def by simp

theorem classify_document_precedence_witness:
  "has_exam_keyword ''LAUDO: resultado de EXAME'' \<and> has_report_keyword ''LAUDO: resultado de EXAME'' \<and>
   classify_document ''LAUDO: resultado de EXAME'' = ''Laudo com Exame'' \<and>
   has_exam_keyword ''Hemograma completo'' \<and> \<not> has_report_keyword ''Hemograma completo'' \<and>
   classify_document ''Hemograma completo'' = ''Exame'' \<and>
   \<not> has_exam_keyword (''DECLARA'' @ [CHR 0xC7, CHR 0xC3] @ ''O'') \<and>
   has_report_keyword (''DECLARA'' @ [CHR 0xC7, CHR 0xC3] @ ''O'') \<and>
   classify_document (''DECLARA'' @ [CHR 0xC7, CHR 0xC3] @ ''O'') = ''Laudo'' \<and>
   \<not> has_exam_keyword ''receita'' \<and> \<not> has_report_keyword ''receita'' \<and>
   classify_document ''receita'' = ''Desconhecido''"
proof -
  have e1: "has_exam_keyword ''LAUDO: resultado de EXAME''"
    unfolding has_exam_code by (simp add: exam_keywords_def chr_ev)
  have r1: "has_report_keyword ''LAUDO: resultado de EXAME''"
    unfolding has_report_code by (simp add: report_keywords_def chr_ev)
  have e2: "has_exam_keyword ''Hemograma completo''"
    unfolding has_exam_code by (simp add: exam_keywords_def chr_ev)
  have r2: "\<not> has_report_keyword ''Hemograma completo''"
    unfolding has_report_code by (simp add: report_keywords_def chr_ev)
  have e3: "\<not> has_exam_keyword (''DECLARA'' @ [CHR 0xC7, CHR 0xC3] @ ''O'')"
    unfolding has_exam_code by (simp add: exam_keywords_def chr_ev)
  have r3: "has_report_keyword (''DECLARA'' @ [CHR 0xC7, CHR 0xC3] @ ''O'')"
    unfolding has_report_code by (simp add: report_keywords_def chr_ev)
  have e4: "\<not> has_exam_keyword ''receita''"
    unfolding has_exam_code by (simp add: exam_keywords_def chr_ev)
  have r4: "\<not> has_report_keyword ''receita''"
    unfolding has_report_code by (simp add: report_keywords_def chr_ev)
  show ?thesis
    using classify_document_precedence[of "''LAUDO: resultado de EXAME''"]
      classify_document_precedence[of "''Hemograma completo''"]
      classify_document_precedence[of "''DECLARA'' @ [CHR 0xC7, CHR 0xC3] @ ''O''"]
      classify_document_precedence[of "''receita''"]
      e1 r1 e2 r2 e3 r3 e4 r4
    by simp
qed

text \<open>C6. \<open>check_afastamento\<close> is true for every text in which afastamento stands alone
  (up to case, between word boundaries), and false for every text in which no phrase of the
  list stands alone, that is, in which every occurrence of every phrase touches a word
  character.\<close>

theorem check_afastamento_word_boundary:
  "(standalone ''afastamento'' text \<longrightarrow> check_afastamento text) \<and>
   ((\<forall>kw \<in> set afastamento_keywords. \<not> standalone kw text) \<longrightarrow> \<not> check_afastamento text)"
proof -
  have "''afastamento'' \<in> set afastamento_keywords"
    by (simp add: afastamento_keywords_def)
  then show ?thesis
    unfolding check_afastamento_iff by blast
qed

theorem check_afastamento_word_boundary_witness:
  "standalone ''afastamento'' ''necessita de Afastamento por 3 dias'' \<and>
   check_afastamento ''necessita de Afastamento por 3 dias'' \<and>
   \<not> standalone ''afastamento'' ''reafastamentos e repousos'' \<and>
   \<not> standalone ''repouso'' ''reafastamentos e repousos'' \<and>
   \<not> check_afastamento ''reafastamentos e repousos''"
proof -
  have "''necessita de Afastamento por 3 dias'' = ''necessita de '' @ ''Afastamento'' @ '' por 3 dias'' \<and>
      lower ''Afastamento'' = ''afastamento'' \<and> \<not> word_opt (prev_after None ''necessita de '') \<and>
      \<not> word_opt (next_char '' por 3 dias'')"
    by (simp add: chr_ev)
  then have h1: "standalone ''afastamento'' ''necessita de Afastamento por 3 dias''"
    unfolding standalone_def by blast
  have none: "re_search (keyword_pattern kw) ''reafastamentos e repousos'' = None"
    if "kw \<in> set afastamento_keywords" for kw
    using that by (auto simp: afastamento_keywords_def keyword_pattern_def ev)
  have h2: "\<forall>kw \<in> set afastamento_keywords. \<not> standalone kw ''reafastamentos e repousos''"
    using none keyword_search_iff afastamento_keywords_shape by blast
  then have "\<not> standalone ''afastamento'' ''reafastamentos e repousos''"
    and "\<not> standalone ''repouso'' ''reafastamentos e repousos''"
    by (simp_all add: afastamento_keywords_def)
  then show ?thesis
    using check_afastamento_word_boundary[of "''necessita de Afastamento por 3 dias''"]
      check_afastamento_word_boundary[of "''reafastamentos e repousos''"] h1 h2
    by blast
qed

text \<open>C7, as stated: \<open>check_signature\<close> is false for every text that contains assinatura and
  in which no word beginning with ass is immediately followed by a colon. It fails on the
  text below: no word that begins with ass is followed by a colon there, yet the pattern
  matches inside the word passou.\<close>

theorem check_signature_stem_counterexample:
  "py_in ''assinatura'' (lower ''assinatura passou:'') \<and>
   re_search stem_word_pattern ''assinatura passou:'' = None \<and>
   check_signature ''assinatura passou:''"
  by (simp add: stem_word_pattern_def check_signature_def signature_pattern_def ev)

text \<open>C7, amended. \<open>check_signature\<close> is true for every text containing Assinatura: in any
  case, and false for every text in which no occurrence of the letters ass, at any place,
  also inside a word, is followed by zero or more word characters and a colon.\<close>

theorem check_signature_labelled:
  "(lower u = ''assinatura:'' \<longrightarrow> check_signature (pre @ u @ post)) \<and>
   ((\<forall>p a w q. text = p @ a @ w @ CHR '':'' # q \<longrightarrow> lower a = ''ass'' \<longrightarrow> \<not> list_all is_word w) \<longrightarrow>
      \<not> check_signature text)"
proof
  have w: "list_all is_word ''inatura''"
    by (simp add: chr_ev)
  show "lower u = ''assinatura:'' \<longrightarrow> check_signature (pre @ u @ post)"
  proof
    assume "lower u = ''assinatura:''"
    then have "lower u = ''ass'' @ ''inatura'' @ [CHR '':'']"
      by simp
    from check_signature_label[OF this refl w refl] show "check_signature (pre @ u @ post)" .
  qed
next
  show "(\<forall>p a w q. text = p @ a @ w @ CHR '':'' # q \<longrightarrow> lower a = ''ass'' \<longrightarrow> \<not> list_all is_word w) \<longrightarrow>
      \<not> check_signature text"
    unfolding check_signature_iff by blast
qed

theorem check_signature_labelled_witness:
  "lower ''Assinatura:'' = ''assinatura:'' \<and> check_signature ''Assinatura: Dr. Silva'' \<and>
   py_in ''assinatura'' (lower ''assinatura do medico'') \<and> \<not> check_signature ''assinatura do medico''"
proof -
  have h1: "lower ''Assinatura:'' = ''assinatura:''"
    by (simp add: chr_ev)
  have h2: "\<forall>p a w q. ''assinatura do medico'' = p @ a @ w @ CHR '':'' # q \<longrightarrow> lower a = ''ass'' \<longrightarrow> \<not> list_all is_word w"
  proof (intro allI impI)
    fix p a w q
    assume "''assinatura do medico'' = p @ a @ w @ CHR '':'' # q"
    then have "set ''assinatura do medico'' = set (p @ a @ w @ CHR '':'' # q)" by simp
    then have "CHR '':'' \<in> set ''assinatura do medico''" by (simp only: set_append set_simps) blast
    then show "\<not> list_all is_word w" by simp
  qed
  have h3: "py_in ''assinatura'' (lower ''assinatura do medico'')"
    by (simp add: chr_ev)
  show ?thesis
    using check_signature_labelled[of "''Assinatura:''" "[]" "'' Dr. Silva''" "''assinatura do medico''"] h1 h2 h3
    by simp
qed

text \<open>C10. The pattern has no word boundary in front: \<open>check_signature\<close> is true for every
  text in which the letters ass, in any case and at any place, are followed by zero or more
  word characters and a colon. On the text ele passou: it is true, although the pattern read
  with a word boundary in front finds nothing there.\<close>

theorem check_signature_inside_word:
  "lower a = ''ass'' \<Longrightarrow> list_all is_word w \<Longrightarrow> check_signature (pre @ a @ w @ CHR '':'' # post)"
  unfolding check_signature_iff by blast

theorem check_signature_inside_word_witness:
  "lower ''ass'' = ''ass'' \<and> list_all is_word ''ou'' \<and> check_signature ''ele passou:'' \<and>
   re_search stem_word_pattern ''ele passou:'' = None"
proof -
  have h: "lower ''ass'' = ''ass''" "list_all is_word ''ou''"
    by (simp_all add: chr_ev)
  have "re_search stem_word_pattern ''ele passou:'' = None"
    by (simp add: stem_word_pattern_def ev)
  then show ?thesis
    using check_signature_inside_word[OF h, of "''ele p''" "[]"] h by simp
qed

text \<open>C5. \<open>extract_registry\<close> returns the status Ativo whenever the registry pattern
  matches somewhere in the text, with no other check, and the pair of \<open>None\<close> when it does
  not; the status is Ativo exactly when the label is present.\<close>

theorem extract_registry_status:
  "(re_search registry_pattern text \<noteq> None \<longrightarrow>
      (\<exists>label. extract_registry text = Inr (Some label, Some ''Ativo''))) \<and>
   (re_search registry_pattern text = None \<longrightarrow> extract_registry text = Inr (None, None)) \<and>
   (\<exists>label status. extract_registry text = Inr (label, status) \<and>
      (status = Some ''Ativo'' \<longleftrightarrow> label \<noteq> None))"
  using extract_registry_cases[of "text"] by auto

theorem extract_registry_status_witness:
  "re_search registry_pattern ''Dr. Fulano CRM/SP 123456'' \<noteq> None \<and>
   (\<exists>label. extract_registry ''Dr. Fulano CRM/SP 123456'' = Inr (Some label, Some ''Ativo'')) \<and>
   re_search registry_pattern ''sem registro'' = None \<and>
   extract_registry ''sem registro'' = Inr (None, None)"
proof -
  have h1: "re_search registry_pattern ''Dr. Fulano CRM/SP 123456'' \<noteq> None"
    by (simp add: registry_pattern_def ev)
  have h2: "re_search registry_pattern ''sem registro'' = None"
    by (simp add: registry_pattern_def ev)
  show ?thesis
    using extract_registry_status[of "''Dr. Fulano CRM/SP 123456''"]
      extract_registry_status[of "''sem registro''"] h1 h2
    by blast
qed

text \<open>C8. The five extraction functions are total: for every text, the empty one included,
  each returns a value of its result type, and the exception branch of \<open>extract_cid\<close> and
  \<open>extract_registry\<close> is never taken. (Every function of the model is defined by
  structural recursion, so each one terminates.)\<close>

theorem extraction_total:
  "classify_document text \<in> {''Exame'', ''Laudo'', ''Laudo com Exame'', ''Desconhecido''} \<and>
   (extract_cid text = Inr None \<or> (\<exists>code. code \<noteq> [] \<and> extract_cid text = Inr (Some code))) \<and>
   (extract_registry text = Inr (None, None) \<or>
      (\<exists>label. extract_registry text = Inr (Some label, Some ''Ativo''))) \<and>
   check_afastamento text \<in> {True, False} \<and> check_signature text \<in> {True, False}"
proof -
  have "classify_document text \<in> {''Exame'', ''Laudo'', ''Laudo com Exame'', ''Desconhecido''}"
    unfolding classify_document_def Let_def by simp
  moreover have "extract_cid text = Inr None \<or> (\<exists>code. code \<noteq> [] \<and> extract_cid text = Inr (Some code))"
    using extract_cid_cases[of "text"] by blast
  moreover have "extract_registry text = Inr (None, None) \<or>
      (\<exists>label. extract_registry text = Inr (Some label, Some ''Ativo''))"
    using extract_registry_cases[of "text"] by blast
  ultimately show ?thesis by simp
qed

text \<open>C1. For every result of an analysis, the verdict is approved exactly when the five
  criteria hold: the type is Laudo or Laudo com Exame, a diagnosis code is present, a registry
  record is present with status Ativo, the absence flag and the signature flag are true.\<close>

theorem approval_is_conjunction:
  assumes "collect_results text = Inr res"
  shows "is_approved res \<longleftrightarrow>
           (doc_type res = ''Laudo'' \<or> doc_type res = ''Laudo com Exame'') \<and>
           cid res \<noteq> None \<and>
           (\<exists>label. registry_info res = (Some label, Some ''Ativo'')) \<and>
           afastamento res \<and> signature res"
proof -
  from collect_results_total[of "text"] assms obtain c reg where
    c: "extract_cid text = Inr c" and r: "extract_registry text = Inr reg"
    and res: "cid res = c" "registry_info res = reg"
    by auto
  have t: "truthy (cid res) \<longleftrightarrow> cid res \<noteq> None"
    using extract_cid_cases[of "text"] c res(1) by auto
  have a: "snd (registry_info res) = Some ''Ativo'' \<longleftrightarrow>
      (\<exists>label. registry_info res = (Some label, Some ''Ativo''))"
    using extract_registry_cases[of "text"] r res(2) by auto
  show ?thesis
    unfolding is_approved_def Let_def using t a
    by (cases "registry_info res") auto
qed

text \<open>C9. When opening the image or the OCR raises, \<open>display_uploader\<close> records the one
  error message and changes nothing else: the stored results and the completion flag stay,
  so a session that awaits input still does. A following successful analysis clears the
  message and stores the complete result and the flag in one step.\<close>

theorem display_uploader_failure_then_success:
  "display_uploader st (Some (Raised e)) = st\<lparr>error_message := Some (error_banner e)\<rparr> \<and>
   results (display_uploader st (Some (Raised e))) = results st \<and>
   analysis_complete (display_uploader st (Some (Raised e))) = analysis_complete st \<and>
   (screen_of st = AwaitingInput \<longrightarrow>
      screen_of (display_uploader st (Some (Raised e))) = AwaitingInput) \<and>
   (\<exists>c reg. extract_cid text = Inr c \<and> extract_registry text = Inr reg \<and>
      display_uploader (display_uploader st (Some (Raised e))) (Some (Recognised text)) =
        \<lparr>analysis_complete = True,
         results = Some \<lparr>doc_type = classify_document text, cid = c, registry_info = reg,
                          afastamento = check_afastamento text,
                          signature = check_signature text, raw_text = text\<rparr>,
         error_message = None\<rparr>)"
proof -
  from collect_results_total[of "text"] obtain c reg where
    c: "extract_cid text = Inr c" "extract_registry text = Inr reg"
    "collect_results text =
       Inr \<lparr>doc_type = classify_document text, cid = c, registry_info = reg,
            afastamento = check_afastamento text, signature = check_signature text,
            raw_text = text\<rparr>"
    by blast
  have "display_uploader (display_uploader st (Some (Raised e))) (Some (Recognised text)) =
        \<lparr>analysis_complete = True,
         results = Some \<lparr>doc_type = classify_document text, cid = c, registry_info = reg,
                          afastamento = check_afastamento text,
                          signature = check_signature text, raw_text = text\<rparr>,
         error_message = None\<rparr>"
    by (simp add: display_uploader_def c(3))
  with c(1,2) show ?thesis
    by (auto simp: display_uploader_def screen_of_def)
qed

text \<open>The two scenarios, a complete report and the same without its diagnosis code, and a
  failed upload followed by a successful one, as instances of C1 and C9.\<close>

theorem approval_is_conjunction_witness:
  "collect_results ''LAUDO CID-10: J45.0 CRM/RJ 98765 afastamento Ass: Dr'' =
     Inr \<lparr>doc_type = ''Laudo'', cid = Some ''J45.0'',
          registry_info = (Some ''CRM/RJ 98765'', Some ''Ativo''),
          afastamento = True, signature = True,
          raw_text = ''LAUDO CID-10: J45.0 CRM/RJ 98765 afastamento Ass: Dr''\<rparr> \<and>
   is_approved \<lparr>doc_type = ''Laudo'', cid = Some ''J45.0'',
          registry_info = (Some ''CRM/RJ 98765'', Some ''Ativo''),
          afastamento = True, signature = True,
          raw_text = ''LAUDO CID-10: J45.0 CRM/RJ 98765 afastamento Ass: Dr''\<rparr> \<and>
   collect_results ''LAUDO CRM/RJ 98765 afastamento Ass: Dr'' =
     Inr \<lparr>doc_type = ''Laudo'', cid = None,
          registry_info = (Some ''CRM/RJ 98765'', Some ''Ativo''),
          afastamento = True, signature = True,
          raw_text = ''LAUDO CRM/RJ 98765 afastamento Ass: Dr''\<rparr> \<and>
   \<not> is_approved \<lparr>doc_type = ''Laudo'', cid = None,
          registry_info = (Some ''CRM/RJ 98765'', Some ''Ativo''),
          afastamento = True, signature = True,
          raw_text = ''LAUDO CRM/RJ 98765 afastamento Ass: Dr''\<rparr>"
  using approval_is_conjunction[OF scenario_approved] approval_is_conjunction[OF scenario_no_cid]
    scenario_approved scenario_no_cid
  by simp

theorem display_uploader_failure_then_success_witness:
  "screen_of initial_state = AwaitingInput \<and>
   display_uploader initial_state (Some (Raised ''cannot identify image file'')) =
     \<lparr>analysis_complete = False, results = None,
      error_message = Some ''Ocorreu um erro ao processar o arquivo: cannot identify image file''\<rparr> \<and>
   screen_of (display_uploader initial_state (Some (Raised ''cannot identify image file''))) = AwaitingInput \<and>
   display_uploader (display_uploader initial_state (Some (Raised ''cannot identify image file'')))
       (Some (Recognised ''LAUDO CID-10: J45.0 CRM/RJ 98765 afastamento Ass: Dr'')) =
     \<lparr>analysis_complete = True,
      results = Some \<lparr>doc_type = ''Laudo'', cid = Some ''J45.0'',
          registry_info = (Some ''CRM/RJ 98765'', Some ''Ativo''),
          afastamento = True, signature = True,
          raw_text = ''LAUDO CID-10: J45.0 CRM/RJ 98765 afastamento Ass: Dr''\<rparr>,
      error_message = None\<rparr>"
proof -
  have s: "screen_of initial_state = AwaitingInput"
    by (simp add: screen_of_def initial_state_def)
  have f: "collect_results ''LAUDO CID-10: J45.0 CRM/RJ 98765 afastamento Ass: Dr'' =
      Inr \<lparr>doc_type = classify_document ''LAUDO CID-10: J45.0 CRM/RJ 98765 afastamento Ass: Dr'',
        cid = c, registry_info = reg,
        afastamento = check_afastamento ''LAUDO CID-10: J45.0 CRM/RJ 98765 afastamento Ass: Dr'',
        signature = check_signature ''LAUDO CID-10: J45.0 CRM/RJ 98765 afastamento Ass: Dr'',
        raw_text = ''LAUDO CID-10: J45.0 CRM/RJ 98765 afastamento Ass: Dr''\<rparr>"
    if "extract_cid ''LAUDO CID-10: J45.0 CRM/RJ 98765 afastamento Ass: Dr'' = Inr c"
      "extract_registry ''LAUDO CID-10: J45.0 CRM/RJ 98765 afastamento Ass: Dr'' = Inr reg" for c reg
    using that by (simp add: collect_results_def)
  show ?thesis
    using display_uploader_failure_then_success[of initial_state "''cannot identify image file''"
        "''LAUDO CID-10: J45.0 CRM/RJ 98765 afastamento Ass: Dr''"] s f scenario_approved
    by (auto simp: initial_state_def error_banner_def)
qed

text \<open>C4, as stated: for every text containing CRM/SP 123456 the label is CRM/SP 123456, and
  for every text containing CRM 123456 it is CRM/ 123456. It fails when a further digit
  follows (the number is read to its end), when an earlier registry identifier matches first,
  and when a word character stands directly before CRM (no word boundary, so no match).\<close>

theorem extract_registry_containing_counterexample:
  "py_in ''CRM/SP 123456'' ''CRM/SP 1234567'' \<and>
   extract_registry ''CRM/SP 1234567'' = Inr (Some ''CRM/SP 1234567'', Some ''Ativo'') \<and>
   py_in ''CRM/SP 123456'' ''CRO 1 CRM/SP 123456'' \<and>
   extract_registry ''CRO 1 CRM/SP 123456'' = Inr (Some ''CRO/ 1'', Some ''Ativo'') \<and>
   py_in ''CRM/SP 123456'' ''xCRM/SP 123456'' \<and>
   extract_registry ''xCRM/SP 123456'' = Inr (None, None) \<and>
   py_in ''CRM 123456'' ''CRM 1234567'' \<and>
   extract_registry ''CRM 1234567'' = Inr (Some ''CRM/ 1234567'', Some ''Ativo'')"
  by (simp add: extract_registry_def registry_pattern_def ev)

text \<open>C4, amended. For every text in which no match of the registry pattern begins before the
  occurrence, no word character stands directly before it and no digit directly after it:
  with the occurrence CRM/SP 123456 the result is the label CRM/SP 123456 and the status
  Ativo, and with CRM 123456 (no state code) it is the label CRM/ 123456, its state segment
  empty, and the status Ativo.\<close>

theorem extract_registry_first_match:
  assumes "no_match_before registry_pattern None pre (ident @ post)"
    and "\<not> word_opt (prev_after None pre)" and "\<not> digit_opt (next_char post)"
  shows "(ident = ''CRM/SP 123456'' \<longrightarrow>
            extract_registry (pre @ ident @ post) = Inr (Some ''CRM/SP 123456'', Some ''Ativo'')) \<and>
         (ident = ''CRM 123456'' \<longrightarrow>
            extract_registry (pre @ ident @ post) = Inr (Some ''CRM/ 123456'', Some ''Ativo''))"
proof (intro conjI impI)
  assume i: "ident = ''CRM/SP 123456''"
  show "extract_registry (pre @ ident @ post) = Inr (Some ''CRM/SP 123456'', Some ''Ativo'')"
    unfolding i extract_registry_def registry_search_state[OF assms[unfolded i]]
    by (simp add: Let_def group_def upper_def upper_char_def cp_def char_of_eq)
next
  assume i: "ident = ''CRM 123456''"
  show "extract_registry (pre @ ident @ post) = Inr (Some ''CRM/ 123456'', Some ''Ativo'')"
    unfolding i extract_registry_def registry_search_no_state[OF assms[unfolded i]]
    by (simp add: Let_def group_def upper_def upper_char_def cp_def char_of_eq)
qed

theorem extract_registry_first_match_witness:
  "no_match_before registry_pattern None ''Dr. Caio, '' (''CRM/SP 123456'' @ '' - SP'') \<and>
   \<not> word_opt (prev_after None ''Dr. Caio, '') \<and> \<not> digit_opt (next_char '' - SP'') \<and>
   extract_registry (''Dr. Caio, '' @ ''CRM/SP 123456'' @ '' - SP'') =
     Inr (Some ''CRM/SP 123456'', Some ''Ativo'') \<and>
   no_match_before registry_pattern None ''Dr. Caio, '' (''CRM 123456'' @ []) \<and>
   \<not> digit_opt (next_char []) \<and>
   extract_registry (''Dr. Caio, '' @ ''CRM 123456'' @ []) = Inr (Some ''CRM/ 123456'', Some ''Ativo'')"
proof -
  have n1: "no_match_before registry_pattern None ''Dr. Caio, '' (''CRM/SP 123456'' @ '' - SP'')"
    by (simp add: registry_pattern_def ev)
  have n2: "no_match_before registry_pattern None ''Dr. Caio, '' (''CRM 123456'' @ [])"
    by (simp add: registry_pattern_def ev)
  have w: "\<not> word_opt (prev_after None ''Dr. Caio, '')"
    by (simp add: chr_ev)
  have d1: "\<not> digit_opt (next_char '' - SP'')" and d2: "\<not> digit_opt (next_char [])"
    by (simp_all add: chr_ev)
  show ?thesis
    using extract_registry_first_match[OF n1 w d1] extract_registry_first_match[OF n2 w d2]
      n1 n2 w d1 d2
    by simp
qed




end
